theory Spec2Isabelle
  imports Complex_Main "HOL-Library.Multiset"
begin

section \<open>Geometry primitives (geometry.h, geometry.cpp)\<close>

text \<open>
  The C++ type \<^verbatim>\<open>double\<close> is modelled by \<^typ>\<open>real\<close>: sums, differences and
  products are exact, comparisons are the mathematical ones. The constants \<^verbatim>\<open>0.1\<close> and
  \<^verbatim>\<open>0.01\<close> are the rationals \<open>1/10\<close> and \<open>1/100\<close>.
\<close>

record rect =
  rect_x :: real
  rect_y :: real
  rect_width :: real
  rect_height :: real

definition Rect :: "real \<Rightarrow> real \<Rightarrow> real \<Rightarrow> real \<Rightarrow> rect" where
  "Rect x0 y0 w h = \<lparr>rect_x = x0, rect_y = y0, rect_width = w, rect_height = h\<rparr>"

definition right :: "rect \<Rightarrow> real" where
  "right r = rect_x r + rect_width r"

definition bottom :: "rect \<Rightarrow> real" where
  "bottom r = rect_y r + rect_height r"

definition area :: "rect \<Rightarrow> real" where
  "area r = rect_width r * rect_height r"

definition is_valid :: "rect \<Rightarrow> bool" where
  "is_valid r \<longleftrightarrow> rect_width r > 0 \<and> rect_height r > 0"

definition intersects :: "rect \<Rightarrow> rect \<Rightarrow> bool" where
  "intersects r1 r2 \<longleftrightarrow>
     \<not> (right r1 \<le> rect_x r2 \<or>
        right r2 \<le> rect_x r1 \<or>
        bottom r1 \<le> rect_y r2 \<or>
        bottom r2 \<le> rect_y r1)"

definition subtract_rect :: "rect \<Rightarrow> rect \<Rightarrow> rect list" where
  "subtract_rect original to_subtract =
     (let ix1 = max (rect_x original) (rect_x to_subtract);
          iy1 = max (rect_y original) (rect_y to_subtract);
          ix2 = min (right original) (right to_subtract);
          iy2 = min (bottom original) (bottom to_subtract)
      in if ix2 \<le> ix1 \<or> iy2 \<le> iy1 then [original]
         else
           (if rect_x original < ix1
            then [Rect (rect_x original) (rect_y original) (ix1 - rect_x original) (rect_height original)]
            else []) @
           (if right original > ix2
            then [Rect ix2 (rect_y original) (right original - ix2) (rect_height original)]
            else []) @
           (if rect_y original < iy1
            then [Rect ix1 (rect_y original) (ix2 - ix1) (iy1 - rect_y original)]
            else []) @
           (if bottom original > iy2
            then [Rect ix1 iy2 (ix2 - ix1) (bottom original - iy2)]
            else []))"

section \<open>Parts, boards, settings (nesting.h)\<close>

text \<open>
  A \<^verbatim>\<open>Part*\<close> held by a board points into the caller's vector of parts. The vector is
  the store \<open>ps :: part list\<close> that every operation takes and returns, and a pointer is
  an index into it.
\<close>

record part =
  part_id :: string
  part_material :: string
  part_width :: real
  part_height :: real
  grain_direction :: string
  allowed_rotations :: "int list"
  part_x :: real
  part_y :: real
  rotation :: int
  board_id :: int

definition part_area :: "part \<Rightarrow> real" where
  "part_area p = part_width p * part_height p"

definition get_rotated_dimensions :: "part \<Rightarrow> int \<Rightarrow> real \<times> real" where
  "get_rotated_dimensions p rot =
     (if rot = 90 \<or> rot = 270 then (part_height p, part_width p)
      else (part_width p, part_height p))"

record board =
  brd_id :: int
  brd_material :: string
  brd_width :: real
  brd_height :: real
  free_rectangles :: "rect list"
  placed_parts :: "nat list"

definition Board :: "int \<Rightarrow> string \<Rightarrow> real \<Rightarrow> real \<Rightarrow> board" where
  "Board n mat w h =
     \<lparr>brd_id = n, brd_material = mat, brd_width = w, brd_height = h,
      free_rectangles = [Rect 0 0 w h], placed_parts = []\<rparr>"

record settings =
  kerf_width :: real
  allow_rotation :: bool
  timeout_ms :: int

section \<open>Sorting\<close>

text \<open>
  \<^verbatim>\<open>std::sort\<close> with a comparator \<open>lt\<close> is modelled by insertion sort, which keeps
  elements that the comparator does not separate in their input order. The general
  results below rest on the sort rearranging its input; the order it produces matters
  only where a concrete run is evaluated.
\<close>

fun sort_insert :: "('a \<Rightarrow> 'a \<Rightarrow> bool) \<Rightarrow> 'a \<Rightarrow> 'a list \<Rightarrow> 'a list" where
  "sort_insert lt a [] = [a]"
| "sort_insert lt a (b # bs) =
     (if lt b a then b # sort_insert lt a bs else a # b # bs)"

fun std_sort :: "('a \<Rightarrow> 'a \<Rightarrow> bool) \<Rightarrow> 'a list \<Rightarrow> 'a list" where
  "std_sort lt [] = []"
| "std_sort lt (a # as) = sort_insert lt a (std_sort lt as)"

section \<open>Board free-space model (nesting.cpp)\<close>

text \<open>The scan over the free rectangles in \<^verbatim>\<open>Board::find_best_position\<close>.\<close>

fun scan_free :: "real \<Rightarrow> real \<Rightarrow> real \<Rightarrow> real \<Rightarrow> rect list \<Rightarrow> (real \<times> real) option" where
  "scan_free ew eh bw bh [] = None"
| "scan_free ew eh bw bh (r # rs) =
     (if ew \<le> rect_width r \<and> eh \<le> rect_height r
      then (if rect_x r + ew \<le> bw \<and> rect_y r + eh \<le> bh
            then Some (rect_x r, rect_y r)
            else scan_free ew eh bw bh rs)
      else scan_free ew eh bw bh rs)"

definition find_best_position :: "board \<Rightarrow> real \<Rightarrow> real \<Rightarrow> real \<Rightarrow> (real \<times> real) option" where
  "find_best_position b pw ph kerf =
     (if placed_parts b = [] \<and>
         \<bar>pw - brd_width b\<bar> < 1 / 10 \<and>
         \<bar>ph - brd_height b\<bar> < 1 / 10
      then Some (0, 0)
      else scan_free (pw + kerf) (ph + kerf) (brd_width b) (brd_height b) (free_rectangles b))"

text \<open>The comparator of the sort at the end of \<^verbatim>\<open>Board::add_part\<close>.\<close>

definition free_rect_less :: "rect \<Rightarrow> rect \<Rightarrow> bool" where
  "free_rect_less a b =
     (if \<bar>rect_y a - rect_y b\<bar> < 1 / 100 then rect_x a < rect_x b else rect_y a < rect_y b)"

text \<open>The body of the loop over the free rectangles in \<^verbatim>\<open>Board::add_part\<close>.\<close>

definition split_free :: "rect \<Rightarrow> rect \<Rightarrow> rect list" where
  "split_free placed_rect free_rect =
     (if intersects free_rect placed_rect
      then filter is_valid (subtract_rect free_rect placed_rect)
      else [free_rect])"

definition add_part :: "nat \<Rightarrow> real \<Rightarrow> real \<Rightarrow> real \<Rightarrow> part list \<Rightarrow> board \<Rightarrow> part list \<times> board" where
  "add_part i px py kerf ps b =
     (let p = (ps ! i)\<lparr>part_x := px, part_y := py, board_id := brd_id b\<rparr>;
          (w, h) = get_rotated_dimensions p (rotation p);
          placed_rect = Rect px py (w + kerf) (h + kerf);
          updated_free_rects = concat (map (split_free placed_rect) (free_rectangles b))
      in (ps[i := p],
          b\<lparr>placed_parts := placed_parts b @ [i],
            free_rectangles := std_sort free_rect_less updated_free_rects\<rparr>))"

definition used_area :: "part list \<Rightarrow> board \<Rightarrow> real" where
  "used_area ps b = foldl (\<lambda>total i. total + part_area (ps ! i)) 0 (placed_parts b)"

definition waste_percentage :: "part list \<Rightarrow> board \<Rightarrow> real" where
  "waste_percentage ps b =
     (let total = brd_width b * brd_height b
      in if total = 0 then 0 else ((total - used_area ps b) / total) * 100)"

section \<open>Nester (nesting.cpp)\<close>

text \<open>
  The loop over the allowed rotations in \<^verbatim>\<open>Nester::try_place_part\<close>: it writes the
  rotation into the part before asking the board for a position.
\<close>

fun try_rotations :: "settings \<Rightarrow> nat \<Rightarrow> int list \<Rightarrow> part list \<Rightarrow> board \<Rightarrow> bool \<times> part list \<times> board" where
  "try_rotations s i [] ps b = (False, ps, b)"
| "try_rotations s i (rot # rots) ps b =
     (let ps1 = ps[i := (ps ! i)\<lparr>rotation := rot\<rparr>];
          (w, h) = get_rotated_dimensions (ps1 ! i) rot
      in case find_best_position b w h (kerf_width s) of
           Some (px, py) \<Rightarrow>
             (let (ps2, b2) = add_part i px py (kerf_width s) ps1 b in (True, ps2, b2))
         | None \<Rightarrow> try_rotations s i rots ps1 b)"

definition try_place_part :: "settings \<Rightarrow> nat \<Rightarrow> part list \<Rightarrow> board \<Rightarrow> bool \<times> part list \<times> board" where
  "try_place_part s i ps b =
     (let original_width = part_width (ps ! i);
          original_height = part_height (ps ! i);
          original_rotation = rotation (ps ! i)
      in case try_rotations s i (allowed_rotations (ps ! i)) ps b of
           (True, ps', b') \<Rightarrow> (True, ps', b')
         | (False, ps', b') \<Rightarrow>
             (False,
              ps'[i := (ps' ! i)\<lparr>part_width := original_width,
                                 part_height := original_height,
                                 rotation := original_rotation\<rparr>],
              b'))"

text \<open>
  The inner loop of \<^verbatim>\<open>Nester::nest_parts\<close> over the queue \<^verbatim>\<open>remaining_parts\<close>; the
  last argument is \<^verbatim>\<open>parts_for_next_board\<close>.
\<close>

fun place_pass :: "settings \<Rightarrow> nat list \<Rightarrow> part list \<Rightarrow> board \<Rightarrow> nat list \<Rightarrow> part list \<times> board \<times> nat list" where
  "place_pass s [] ps b nxt = (ps, b, nxt)"
| "place_pass s (i # rest) ps b nxt =
     (case try_place_part s i ps b of
        (True, ps', b') \<Rightarrow> place_pass s rest ps' b' nxt
      | (False, ps', b') \<Rightarrow> place_pass s rest ps' b' (nxt @ [i]))"

text \<open>
  The message written to \<^verbatim>\<open>std::cerr\<close> on the error path: part id, part width and
  height, board width and height, material.
\<close>

datatype diagnostic = Unplaceable string real real real real string

record nest_result =
  res_boards :: "board list"
  res_parts :: "part list"
  res_board_count :: int
  res_error :: "diagnostic option"

text \<open>
  The \<^verbatim>\<open>while\<close> loop of \<^verbatim>\<open>Nester::nest_parts\<close>. The source appends the new board to
  \<^verbatim>\<open>boards\<close> before the pass and pops it on the error path; here the board is appended
  after a pass that placed something. Inside the loop \<^verbatim>\<open>remaining_parts\<close> is not empty,
  so \<^verbatim>\<open>remaining_parts[0]\<close> is its head. \<^verbatim>\<open>board_count\<close> counts the passes. The
  progress lines written to \<^verbatim>\<open>std::cout\<close> (and the counter \<^verbatim>\<open>placed_count\<close> that only
  they read) are left out; the message on \<^verbatim>\<open>std::cerr\<close> is the field \<open>res_error\<close>.
\<close>

function nest_loop ::
  "settings \<Rightarrow> string \<Rightarrow> real \<Rightarrow> real \<Rightarrow> int \<Rightarrow> board list \<Rightarrow> nat list \<Rightarrow> part list \<Rightarrow> nest_result" where
  "nest_loop s material bw bh board_count boards remaining_parts ps =
     (if remaining_parts = []
      then \<lparr>res_boards = boards, res_parts = ps, res_board_count = board_count, res_error = None\<rparr>
      else
        (case place_pass s remaining_parts ps (Board (board_count + 1) material bw bh) [] of
           (ps', current_board, parts_for_next_board) \<Rightarrow>
             if placed_parts current_board = []
             then \<lparr>res_boards = boards, res_parts = ps', res_board_count = board_count + 1,
                   res_error = Some (Unplaceable (part_id (ps' ! hd remaining_parts))
                                       (part_width (ps' ! hd remaining_parts))
                                       (part_height (ps' ! hd remaining_parts))
                                       bw bh material)\<rparr>
             else nest_loop s material bw bh (board_count + 1) (boards @ [current_board])
                    parts_for_next_board ps'))"
  by pat_completeness auto

text \<open>The comparator of the sort at the start of \<^verbatim>\<open>Nester::nest_parts\<close>.\<close>

definition area_greater :: "part \<Rightarrow> part \<Rightarrow> bool" where
  "area_greater a b \<longleftrightarrow> part_area a > part_area b"

definition nest_parts :: "settings \<Rightarrow> part list \<Rightarrow> string \<Rightarrow> real \<Rightarrow> real \<Rightarrow> nest_result" where
  "nest_parts s parts material bw bh =
     (let ps = std_sort area_greater parts;
          remaining_parts = [0..<length ps]
      in nest_loop s material bw bh 0 [] remaining_parts ps)"

section \<open>Properties used in the statements\<close>

text \<open>No two rectangles of a list, taken at different positions, intersect.\<close>

fun pairwise_disjoint :: "rect list \<Rightarrow> bool" where
  "pairwise_disjoint [] = True"
| "pairwise_disjoint (r # rs) = ((\<forall>q \<in> set rs. \<not> intersects r q) \<and> pairwise_disjoint rs)"

text \<open>Rectangle \<open>a\<close> lies within rectangle \<open>b\<close>.\<close>

definition inside :: "rect \<Rightarrow> rect \<Rightarrow> bool" where
  "inside a b \<longleftrightarrow>
     rect_x b \<le> rect_x a \<and> rect_y b \<le> rect_y a \<and> right a \<le> right b \<and> bottom a \<le> bottom b"


text \<open>
  The kerf-expanded rectangle of a placed part: at its recorded position, with its rotated
  width and height plus the kerf. It is the rectangle \<open>add_part\<close> removes from the free
  space.
\<close>

definition placed_rect :: "real \<Rightarrow> part \<Rightarrow> rect" where
  "placed_rect kerf p =
     (case get_rotated_dimensions p (rotation p) of
        (w, h) \<Rightarrow> Rect (part_x p) (part_y p) (w + kerf) (h + kerf))"

text \<open>The first rotation of a list for which the board has a position, with the position.\<close>

fun first_fit :: "real \<Rightarrow> part \<Rightarrow> board \<Rightarrow> int list \<Rightarrow> (int \<times> real \<times> real) option" where
  "first_fit kerf p b [] = None"
| "first_fit kerf p b (rot # rots) =
     (case find_best_position b (fst (get_rotated_dimensions p rot))
             (snd (get_rotated_dimensions p rot)) kerf of
        Some (px, py) \<Rightarrow> Some (rot, px, py)
      | None \<Rightarrow> first_fit kerf p b rots)"

text \<open>The position the board offers the part in a given rotation.\<close>

definition rotation_position :: "real \<Rightarrow> part \<Rightarrow> board \<Rightarrow> int \<Rightarrow> (real \<times> real) option" where
  "rotation_position kerf p b rot =
     find_best_position b (fst (get_rotated_dimensions p rot))
       (snd (get_rotated_dimensions p rot)) kerf"

text \<open>
  A part as the driver builds it (\<^verbatim>\<open>main.cpp\<close>): the placement fields keep the defaults of
  \<^verbatim>\<open>struct Part\<close>, and the rotations are \<open>[0]\<close> or \<open>[0, 90]\<close>.
\<close>

definition new_part :: "string \<Rightarrow> string \<Rightarrow> real \<Rightarrow> real \<Rightarrow> int list \<Rightarrow> part" where
  "new_part ident mat w h rots =
     \<lparr>part_id = ident, part_material = mat, part_width = w, part_height = h,
      grain_direction = ''any'', allowed_rotations = rots,
      part_x = 0, part_y = 0, rotation = 0, board_id = - 1\<rparr>"

text \<open>Settings with a given kerf; the other two fields are the defaults of \<^verbatim>\<open>struct Settings\<close>.\<close>

definition settings_kerf :: "real \<Rightarrow> settings" where
  "settings_kerf k = \<lparr>kerf_width = k, allow_rotation = True, timeout_ms = 60000\<rparr>"

text \<open>The fields of a part that are not placement results.\<close>

definition static_fields :: "part \<Rightarrow> string \<times> string \<times> real \<times> real \<times> string \<times> int list" where
  "static_fields p =
     (part_id p, part_material p, part_width p, part_height p, grain_direction p,
      allowed_rotations p)"

text \<open>The board as a rectangle, and a rectangle within the board's bounds.\<close>

definition within_board :: "board \<Rightarrow> rect \<Rightarrow> bool" where
  "within_board b r \<longleftrightarrow> inside r (Rect 0 0 (brd_width b) (brd_height b))"

text \<open>
  A part that sits where the full-sheet special case of \<open>find_best_position\<close> puts it: at
  \<open>(0, 0)\<close>, with rotated width and height within 0.1 of the board's.
\<close>

definition full_sheet :: "board \<Rightarrow> part \<Rightarrow> bool" where
  "full_sheet b p \<longleftrightarrow>
     part_x p = 0 \<and> part_y p = 0 \<and>
     \<bar>fst (get_rotated_dimensions p (rotation p)) - brd_width b\<bar> < 1 / 10 \<and>
     \<bar>snd (get_rotated_dimensions p (rotation p)) - brd_height b\<bar> < 1 / 10"

text \<open>The free rectangles of a board are valid and pairwise disjoint.\<close>

definition free_ok :: "board \<Rightarrow> bool" where
  "free_ok b \<longleftrightarrow>
     (\<forall>f \<in> set (free_rectangles b). is_valid f) \<and> pairwise_disjoint (free_rectangles b)"

text \<open>
  The layout of a board, given the kerf and the parts: the kerf-expanded rectangles of its
  placed parts are pairwise disjoint; each lies within the board, except that the first
  part placed may instead be a full-sheet part; and the free rectangles are valid and
  pairwise disjoint.
\<close>

definition layout_ok :: "real \<Rightarrow> part list \<Rightarrow> board \<Rightarrow> bool" where
  "layout_ok kerf ps b \<longleftrightarrow>
     pairwise_disjoint (map (\<lambda>i. placed_rect kerf (ps ! i)) (placed_parts b)) \<and>
     (\<forall>i \<in> set (tl (placed_parts b)). within_board b (placed_rect kerf (ps ! i))) \<and>
     (placed_parts b \<noteq> [] \<longrightarrow>
        within_board b (placed_rect kerf (ps ! hd (placed_parts b))) \<or>
        full_sheet b (ps ! hd (placed_parts b))) \<and>
     free_ok b"

text \<open>
  The invariant of a board during nesting: its layout is as above, its free rectangles lie
  within the board, and no placed part's kerf-expanded rectangle intersects a free
  rectangle.
\<close>

definition board_inv :: "real \<Rightarrow> part list \<Rightarrow> board \<Rightarrow> bool" where
  "board_inv kerf ps b \<longleftrightarrow>
     layout_ok kerf ps b \<and>
     (\<forall>f \<in> set (free_rectangles b). within_board b f) \<and>
     (\<forall>i \<in> set (placed_parts b). \<forall>f \<in> set (free_rectangles b).
        \<not> intersects (placed_rect kerf (ps ! i)) f)"

section \<open>Double arithmetic\<close>

text \<open>
  The C++ type \<^verbatim>\<open>double\<close> is the IEEE 754 binary64 format. \<open>round_double v\<close> is the double
  nearest to the real number \<open>v\<close>: a whole multiple of \<open>2\<^sup>e\<close>, where \<open>e\<close> is the exponent
  of the last place of the 53-bit significand for the size of \<open>v\<close>, between \<open>-1074\<close> (the
  subnormal numbers) and \<open>971\<close>; a tie goes to the even multiple. Every operation of the
  source on doubles returns the rounded exact result. Infinities and NaN are not
  modelled: beyond the largest double the rounding goes on with the largest exponent.
\<close>

definition round_half_even :: "real \<Rightarrow> int" where
  "round_half_even v =
     (let f = \<lfloor>v\<rfloor>; d = v - of_int f
      in if d < 1 / 2 then f else if 1 / 2 < d then f + 1 else if even f then f else f + 1)"

fun double_exponent :: "nat \<Rightarrow> real \<Rightarrow> int" where
  "double_exponent 0 a = - 1074"
| "double_exponent (Suc n) a =
     (if 2 powi (int n - 1021) \<le> a then int n - 1073 else double_exponent n a)"

definition round_double :: "real \<Rightarrow> real" where
  "round_double v =
     (let e = double_exponent 2045 \<bar>v\<bar>
      in of_int (round_half_even (v / 2 powi e)) * 2 powi e)"

section \<open>The operations with rounded arithmetic\<close>

text \<open>
  The operations of the geometry, the board and the nester once more, with a rounding
  function \<open>rnd\<close> applied to the result of every addition, subtraction and multiplication
  of the source and to its decimal constants. With \<open>round_double\<close> for \<open>rnd\<close> this is the
  arithmetic of the C++ type \<^verbatim>\<open>double\<close>; with the identity it is the exact arithmetic of
  the definitions above. Comparisons, \<open>max\<close>, \<open>min\<close> and the absolute value do not round.
\<close>

definition right_fl :: "(real \<Rightarrow> real) \<Rightarrow> rect \<Rightarrow> real" where
  "right_fl rnd r = rnd (rect_x r + rect_width r)"

definition bottom_fl :: "(real \<Rightarrow> real) \<Rightarrow> rect \<Rightarrow> real" where
  "bottom_fl rnd r = rnd (rect_y r + rect_height r)"

definition area_fl :: "(real \<Rightarrow> real) \<Rightarrow> rect \<Rightarrow> real" where
  "area_fl rnd r = rnd (rect_width r * rect_height r)"

definition intersects_fl :: "(real \<Rightarrow> real) \<Rightarrow> rect \<Rightarrow> rect \<Rightarrow> bool" where
  "intersects_fl rnd r1 r2 \<longleftrightarrow>
     \<not> (right_fl rnd r1 \<le> rect_x r2 \<or>
        right_fl rnd r2 \<le> rect_x r1 \<or>
        bottom_fl rnd r1 \<le> rect_y r2 \<or>
        bottom_fl rnd r2 \<le> rect_y r1)"

definition subtract_rect_fl :: "(real \<Rightarrow> real) \<Rightarrow> rect \<Rightarrow> rect \<Rightarrow> rect list" where
  "subtract_rect_fl rnd original to_subtract =
     (let ix1 = max (rect_x original) (rect_x to_subtract);
          iy1 = max (rect_y original) (rect_y to_subtract);
          ix2 = min (right_fl rnd original) (right_fl rnd to_subtract);
          iy2 = min (bottom_fl rnd original) (bottom_fl rnd to_subtract)
      in if ix2 \<le> ix1 \<or> iy2 \<le> iy1 then [original]
         else
           (if rect_x original < ix1
            then [Rect (rect_x original) (rect_y original) (rnd (ix1 - rect_x original))
                    (rect_height original)]
            else []) @
           (if right_fl rnd original > ix2
            then [Rect ix2 (rect_y original) (rnd (right_fl rnd original - ix2))
                    (rect_height original)]
            else []) @
           (if rect_y original < iy1
            then [Rect ix1 (rect_y original) (rnd (ix2 - ix1)) (rnd (iy1 - rect_y original))]
            else []) @
           (if bottom_fl rnd original > iy2
            then [Rect ix1 iy2 (rnd (ix2 - ix1)) (rnd (bottom_fl rnd original - iy2))]
            else []))"

definition part_area_fl :: "(real \<Rightarrow> real) \<Rightarrow> part \<Rightarrow> real" where
  "part_area_fl rnd p = rnd (part_width p * part_height p)"

fun scan_free_fl ::
  "(real \<Rightarrow> real) \<Rightarrow> real \<Rightarrow> real \<Rightarrow> real \<Rightarrow> real \<Rightarrow> rect list \<Rightarrow> (real \<times> real) option" where
  "scan_free_fl rnd ew eh bw bh [] = None"
| "scan_free_fl rnd ew eh bw bh (r # rs) =
     (if ew \<le> rect_width r \<and> eh \<le> rect_height r
      then (if rnd (rect_x r + ew) \<le> bw \<and> rnd (rect_y r + eh) \<le> bh
            then Some (rect_x r, rect_y r)
            else scan_free_fl rnd ew eh bw bh rs)
      else scan_free_fl rnd ew eh bw bh rs)"

definition find_best_position_fl ::
  "(real \<Rightarrow> real) \<Rightarrow> board \<Rightarrow> real \<Rightarrow> real \<Rightarrow> real \<Rightarrow> (real \<times> real) option" where
  "find_best_position_fl rnd b pw ph kerf =
     (if placed_parts b = [] \<and>
         \<bar>rnd (pw - brd_width b)\<bar> < rnd (1 / 10) \<and>
         \<bar>rnd (ph - brd_height b)\<bar> < rnd (1 / 10)
      then Some (0, 0)
      else scan_free_fl rnd (rnd (pw + kerf)) (rnd (ph + kerf)) (brd_width b) (brd_height b)
             (free_rectangles b))"

definition free_rect_less_fl :: "(real \<Rightarrow> real) \<Rightarrow> rect \<Rightarrow> rect \<Rightarrow> bool" where
  "free_rect_less_fl rnd a b =
     (if \<bar>rnd (rect_y a - rect_y b)\<bar> < rnd (1 / 100) then rect_x a < rect_x b
      else rect_y a < rect_y b)"

definition split_free_fl :: "(real \<Rightarrow> real) \<Rightarrow> rect \<Rightarrow> rect \<Rightarrow> rect list" where
  "split_free_fl rnd placed free_rect =
     (if intersects_fl rnd free_rect placed
      then filter is_valid (subtract_rect_fl rnd free_rect placed)
      else [free_rect])"

text \<open>The kerf-expanded rectangle of a placed part as \<^verbatim>\<open>add_part\<close> computes it.\<close>

definition placed_rect_fl :: "(real \<Rightarrow> real) \<Rightarrow> real \<Rightarrow> part \<Rightarrow> rect" where
  "placed_rect_fl rnd kerf p =
     (case get_rotated_dimensions p (rotation p) of
        (w, h) \<Rightarrow> Rect (part_x p) (part_y p) (rnd (w + kerf)) (rnd (h + kerf)))"

definition add_part_fl ::
  "(real \<Rightarrow> real) \<Rightarrow> nat \<Rightarrow> real \<Rightarrow> real \<Rightarrow> real \<Rightarrow> part list \<Rightarrow> board \<Rightarrow> part list \<times> board" where
  "add_part_fl rnd i px py kerf ps b =
     (let p = (ps ! i)\<lparr>part_x := px, part_y := py, board_id := brd_id b\<rparr>;
          (w, h) = get_rotated_dimensions p (rotation p);
          placed = Rect px py (rnd (w + kerf)) (rnd (h + kerf));
          updated_free_rects = concat (map (split_free_fl rnd placed) (free_rectangles b))
      in (ps[i := p],
          b\<lparr>placed_parts := placed_parts b @ [i],
            free_rectangles := std_sort (free_rect_less_fl rnd) updated_free_rects\<rparr>))"

fun try_rotations_fl ::
  "(real \<Rightarrow> real) \<Rightarrow> settings \<Rightarrow> nat \<Rightarrow> int list \<Rightarrow> part list \<Rightarrow> board \<Rightarrow> bool \<times> part list \<times> board" where
  "try_rotations_fl rnd s i [] ps b = (False, ps, b)"
| "try_rotations_fl rnd s i (rot # rots) ps b =
     (let ps1 = ps[i := (ps ! i)\<lparr>rotation := rot\<rparr>];
          (w, h) = get_rotated_dimensions (ps1 ! i) rot
      in case find_best_position_fl rnd b w h (kerf_width s) of
           Some (px, py) \<Rightarrow>
             (let (ps2, b2) = add_part_fl rnd i px py (kerf_width s) ps1 b in (True, ps2, b2))
         | None \<Rightarrow> try_rotations_fl rnd s i rots ps1 b)"

definition try_place_part_fl ::
  "(real \<Rightarrow> real) \<Rightarrow> settings \<Rightarrow> nat \<Rightarrow> part list \<Rightarrow> board \<Rightarrow> bool \<times> part list \<times> board" where
  "try_place_part_fl rnd s i ps b =
     (let original_width = part_width (ps ! i);
          original_height = part_height (ps ! i);
          original_rotation = rotation (ps ! i)
      in case try_rotations_fl rnd s i (allowed_rotations (ps ! i)) ps b of
           (True, ps', b') \<Rightarrow> (True, ps', b')
         | (False, ps', b') \<Rightarrow>
             (False,
              ps'[i := (ps' ! i)\<lparr>part_width := original_width,
                                 part_height := original_height,
                                 rotation := original_rotation\<rparr>],
              b'))"

fun place_pass_fl ::
  "(real \<Rightarrow> real) \<Rightarrow> settings \<Rightarrow> nat list \<Rightarrow> part list \<Rightarrow> board \<Rightarrow> nat list \<Rightarrow> part list \<times> board \<times> nat list" where
  "place_pass_fl rnd s [] ps b nxt = (ps, b, nxt)"
| "place_pass_fl rnd s (i # rest) ps b nxt =
     (case try_place_part_fl rnd s i ps b of
        (True, ps', b') \<Rightarrow> place_pass_fl rnd s rest ps' b' nxt
      | (False, ps', b') \<Rightarrow> place_pass_fl rnd s rest ps' b' (nxt @ [i]))"

function nest_loop_fl ::
  "(real \<Rightarrow> real) \<Rightarrow> settings \<Rightarrow> string \<Rightarrow> real \<Rightarrow> real \<Rightarrow> int \<Rightarrow> board list \<Rightarrow> nat list \<Rightarrow> part list \<Rightarrow> nest_result" where
  "nest_loop_fl rnd s material bw bh board_count boards remaining_parts ps =
     (if remaining_parts = []
      then \<lparr>res_boards = boards, res_parts = ps, res_board_count = board_count, res_error = None\<rparr>
      else
        (case place_pass_fl rnd s remaining_parts ps (Board (board_count + 1) material bw bh) [] of
           (ps', current_board, parts_for_next_board) \<Rightarrow>
             if placed_parts current_board = []
             then \<lparr>res_boards = boards, res_parts = ps', res_board_count = board_count + 1,
                   res_error = Some (Unplaceable (part_id (ps' ! hd remaining_parts))
                                       (part_width (ps' ! hd remaining_parts))
                                       (part_height (ps' ! hd remaining_parts))
                                       bw bh material)\<rparr>
             else nest_loop_fl rnd s material bw bh (board_count + 1) (boards @ [current_board])
                    parts_for_next_board ps'))"
  by pat_completeness auto

definition area_greater_fl :: "(real \<Rightarrow> real) \<Rightarrow> part \<Rightarrow> part \<Rightarrow> bool" where
  "area_greater_fl rnd a b \<longleftrightarrow> part_area_fl rnd a > part_area_fl rnd b"

definition nest_parts_fl ::
  "(real \<Rightarrow> real) \<Rightarrow> settings \<Rightarrow> part list \<Rightarrow> string \<Rightarrow> real \<Rightarrow> real \<Rightarrow> nest_result" where
  "nest_parts_fl rnd s parts material bw bh =
     (let ps = std_sort (area_greater_fl rnd) parts;
          remaining_parts = [0..<length ps]
      in nest_loop_fl rnd s material bw bh 0 [] remaining_parts ps)"

text \<open>
  The sums and differences that \<open>subtract_rect\<close> computes for two rectangles, in exact
  arithmetic: the four far edges, and the widths and heights of the four pieces.
\<close>

definition subtract_rect_sums :: "rect \<Rightarrow> rect \<Rightarrow> real list" where
  "subtract_rect_sums r c =
     [rect_x r + rect_width r, rect_y r + rect_height r,
      rect_x c + rect_width c, rect_y c + rect_height c,
      max (rect_x r) (rect_x c) - rect_x r,
      rect_x r + rect_width r - min (rect_x r + rect_width r) (rect_x c + rect_width c),
      min (rect_x r + rect_width r) (rect_x c + rect_width c) - max (rect_x r) (rect_x c),
      max (rect_y r) (rect_y c) - rect_y r,
      rect_y r + rect_height r - min (rect_y r + rect_height r) (rect_y c + rect_height c)]"

section \<open>Arithmetic that does not round\<close>






section \<open>Termination of the board loop\<close>

text \<open>
  The loop terminates: a pass moves every queued part either onto the board or into the
  next queue, so a pass that places a part leaves a shorter queue.
\<close>

lemma add_part_placed:
  "add_part i px py kerf ps b = (ps', b') \<Longrightarrow> placed_parts b' = placed_parts b @ [i]"
  by (auto simp: add_part_def Let_def split: prod.splits)

lemma try_rotations_placed:
  "try_rotations s i rots ps b = (ok, ps', b') \<Longrightarrow>
   placed_parts b' = (if ok then placed_parts b @ [i] else placed_parts b)"
proof (induction rots arbitrary: ps)
  case Nil
  then show ?case by simp
next
  case (Cons rot rots)
  let ?ps1 = "ps[i := (ps ! i)\<lparr>rotation := rot\<rparr>]"
  obtain w h where wh: "get_rotated_dimensions (?ps1 ! i) rot = (w, h)"
    by (cases "get_rotated_dimensions (?ps1 ! i) rot") auto
  show ?case
  proof (cases "find_best_position b w h (kerf_width s)")
    case None
    with Cons.prems wh have "try_rotations s i rots ?ps1 b = (ok, ps', b')"
      by (simp add: Let_def)
    then show ?thesis by (rule Cons.IH)
  next
    case (Some pos)
    obtain px py where pos: "pos = (px, py)" by (cases pos) auto
    obtain ps2 b2 where ap: "add_part i px py (kerf_width s) ?ps1 b = (ps2, b2)"
      by (cases "add_part i px py (kerf_width s) ?ps1 b") auto
    from Cons.prems wh Some pos ap have "ok" "b' = b2"
      by (simp_all add: Let_def)
    with add_part_placed [OF ap] show ?thesis by simp
  qed
qed

lemma try_place_part_placed:
  assumes "try_place_part s i ps b = (ok, ps', b')"
  shows "placed_parts b' = (if ok then placed_parts b @ [i] else placed_parts b)"
proof -
  obtain ok1 ps1 b1 where tr: "try_rotations s i (allowed_rotations (ps ! i)) ps b = (ok1, ps1, b1)"
    by (cases "try_rotations s i (allowed_rotations (ps ! i)) ps b") auto
  from assms tr have "ok = ok1" "b' = b1"
    by (auto simp: try_place_part_def Let_def split: if_splits bool.splits)
  with try_rotations_placed [OF tr] show ?thesis by simp
qed

lemma place_pass_count:
  "place_pass s q ps b nxt = (ps', b', nxt') \<Longrightarrow>
   length (placed_parts b') + length nxt' = length (placed_parts b) + length nxt + length q"
proof (induction q arbitrary: ps b nxt)
  case Nil
  then show ?case by simp
next
  case (Cons i rest)
  obtain ok ps1 b1 where tp: "try_place_part s i ps b = (ok, ps1, b1)"
    by (cases "try_place_part s i ps b") auto
  show ?case
  proof (cases ok)
    case True
    with Cons.prems tp have "place_pass s rest ps1 b1 nxt = (ps', b', nxt')" by simp
    from Cons.IH [OF this] try_place_part_placed [OF tp] True show ?thesis by simp
  next
    case False
    with Cons.prems tp have "place_pass s rest ps1 b1 (nxt @ [i]) = (ps', b', nxt')" by simp
    from Cons.IH [OF this] try_place_part_placed [OF tp] False show ?thesis by simp
  qed
qed

lemma place_pass_progress:
  assumes "place_pass s q ps (Board n mat w h) [] = (ps', b', nxt')" "placed_parts b' \<noteq> []"
  shows "length nxt' < length q"
  using place_pass_count [OF assms(1)] assms(2)
  by (cases "placed_parts b'") (simp_all add: Board_def)

termination nest_loop
proof (relation "measure (\<lambda>(s, material, bw, bh, board_count, boards, remaining_parts, ps).
                            length remaining_parts)", goal_cases)
  case 1
  show ?case by simp
next
  case (2 s material bw bh board_count boards remaining_parts ps x y xa ya)
  have "place_pass s remaining_parts ps (Board (board_count + 1) material bw bh) [] = (x, y)"
    by (rule 2(2) [symmetric])
  moreover have "y = (xa, ya)"
    by (rule 2(3) [symmetric])
  ultimately have "place_pass s remaining_parts ps (Board (board_count + 1) material bw bh) [] =
      (x, xa, ya)"
    by simp
  from place_pass_progress [OF this 2(4)] show ?case by simp
qed

declare nest_loop.simps [simp del]

lemma add_part_fl_placed:
  "add_part_fl rnd i px py kerf ps b = (ps', b') \<Longrightarrow> placed_parts b' = placed_parts b @ [i]"
  by (auto simp: add_part_fl_def Let_def split: prod.splits)

lemma try_rotations_fl_placed:
  "try_rotations_fl rnd s i rots ps b = (ok, ps', b') \<Longrightarrow>
   placed_parts b' = (if ok then placed_parts b @ [i] else placed_parts b)"
proof (induction rots arbitrary: ps)
  case Nil
  then show ?case by simp
next
  case (Cons rot rots)
  let ?ps1 = "ps[i := (ps ! i)\<lparr>rotation := rot\<rparr>]"
  obtain w h where wh: "get_rotated_dimensions (?ps1 ! i) rot = (w, h)"
    by (cases "get_rotated_dimensions (?ps1 ! i) rot") auto
  show ?case
  proof (cases "find_best_position_fl rnd b w h (kerf_width s)")
    case None
    with Cons.prems wh have "try_rotations_fl rnd s i rots ?ps1 b = (ok, ps', b')"
      by (simp add: Let_def)
    then show ?thesis by (rule Cons.IH)
  next
    case (Some pos)
    obtain px py where pos: "pos = (px, py)" by (cases pos) auto
    obtain ps2 b2 where ap: "add_part_fl rnd i px py (kerf_width s) ?ps1 b = (ps2, b2)"
      by (cases "add_part_fl rnd i px py (kerf_width s) ?ps1 b") auto
    from Cons.prems wh Some pos ap have "ok" "b' = b2"
      by (simp_all add: Let_def)
    with add_part_fl_placed [OF ap] show ?thesis by simp
  qed
qed

lemma try_place_part_fl_placed:
  assumes "try_place_part_fl rnd s i ps b = (ok, ps', b')"
  shows "placed_parts b' = (if ok then placed_parts b @ [i] else placed_parts b)"
proof -
  obtain ok1 ps1 b1 where
    tr: "try_rotations_fl rnd s i (allowed_rotations (ps ! i)) ps b = (ok1, ps1, b1)"
    by (cases "try_rotations_fl rnd s i (allowed_rotations (ps ! i)) ps b") auto
  from assms tr have "ok = ok1" "b' = b1"
    by (auto simp: try_place_part_fl_def Let_def split: if_splits bool.splits)
  with try_rotations_fl_placed [OF tr] show ?thesis by simp
qed

lemma place_pass_fl_count:
  "place_pass_fl rnd s q ps b nxt = (ps', b', nxt') \<Longrightarrow>
   length (placed_parts b') + length nxt' = length (placed_parts b) + length nxt + length q"
proof (induction q arbitrary: ps b nxt)
  case Nil
  then show ?case by simp
next
  case (Cons i rest)
  obtain ok ps1 b1 where tp: "try_place_part_fl rnd s i ps b = (ok, ps1, b1)"
    by (cases "try_place_part_fl rnd s i ps b") auto
  show ?case
  proof (cases ok)
    case True
    with Cons.prems tp have "place_pass_fl rnd s rest ps1 b1 nxt = (ps', b', nxt')" by simp
    from Cons.IH [OF this] try_place_part_fl_placed [OF tp] True show ?thesis by simp
  next
    case False
    with Cons.prems tp have "place_pass_fl rnd s rest ps1 b1 (nxt @ [i]) = (ps', b', nxt')" by simp
    from Cons.IH [OF this] try_place_part_fl_placed [OF tp] False show ?thesis by simp
  qed
qed

termination nest_loop_fl
proof (relation "measure (\<lambda>(rnd, s, material, bw, bh, board_count, boards, remaining_parts, ps).
                            length remaining_parts)", goal_cases)
  case 1
  show ?case by simp
next
  case (2 rnd s material bw bh board_count boards remaining_parts ps x y xa ya)
  have "place_pass_fl rnd s remaining_parts ps (Board (board_count + 1) material bw bh) [] = (x, y)"
    by (rule 2(2) [symmetric])
  moreover have "y = (xa, ya)"
    by (rule 2(3) [symmetric])
  ultimately have "place_pass_fl rnd s remaining_parts ps (Board (board_count + 1) material bw bh) [] =
      (x, xa, ya)"
    by simp
  from place_pass_fl_count [OF this] 2(4) show ?case
    by (cases "placed_parts xa") (simp_all add: Board_def)
qed

declare nest_loop_fl.simps [simp del]

section \<open>Rectangles\<close>

lemma intersects_iff:
  "intersects r1 r2 \<longleftrightarrow>
     rect_x r2 < right r1 \<and> rect_x r1 < right r2 \<and> rect_y r2 < bottom r1 \<and> rect_y r1 < bottom r2"
  by (auto simp: intersects_def)

lemma intersects_sym: "intersects a b = intersects b a"
  by (auto simp: intersects_def)

lemma Rect_sel [simp]:
  "rect_x (Rect a b c d) = a" "rect_y (Rect a b c d) = b"
  "rect_width (Rect a b c d) = c" "rect_height (Rect a b c d) = d"
  by (simp_all add: Rect_def)

lemma right_Rect [simp]: "right (Rect a b c d) = a + c"
  by (simp add: right_def)

lemma bottom_Rect [simp]: "bottom (Rect a b c d) = b + d"
  by (simp add: bottom_def)

lemma area_Rect [simp]: "area (Rect a b c d) = c * d"
  by (simp add: area_def)

lemma is_valid_Rect [simp]: "is_valid (Rect a b c d) \<longleftrightarrow> 0 < c \<and> 0 < d"
  by (simp add: is_valid_def)

lemma valid_edges: "is_valid r \<Longrightarrow> rect_x r < right r \<and> rect_y r < bottom r"
  by (simp add: is_valid_def right_def bottom_def)

text \<open>
  For valid rectangles the emptiness test of \<open>subtract_rect\<close> on the intersection box
  agrees with \<open>intersects\<close>.
\<close>

lemma overlap_box:
  assumes "is_valid r" "is_valid c"
  shows "intersects r c \<longleftrightarrow>
           \<not> (min (right r) (right c) \<le> max (rect_x r) (rect_x c) \<or>
              min (bottom r) (bottom c) \<le> max (rect_y r) (rect_y c))"
  using valid_edges [OF assms(1)] valid_edges [OF assms(2)]
  by (auto simp: intersects_def min_le_iff_disj le_max_iff_disj)



text \<open>The shape of the result of \<open>subtract_rect\<close>, with the facts about the intersection
  box that the later proofs need, so that \<open>min\<close> and \<open>max\<close> stay folded.\<close>

lemma subtract_rect_shape:
  obtains (apart)
      "min (right r) (right c) \<le> max (rect_x r) (rect_x c) \<or>
       min (bottom r) (bottom c) \<le> max (rect_y r) (rect_y c)"
      "subtract_rect r c = [r]"
  | (cut) ix1 iy1 ix2 iy2 where
      "ix1 < ix2" "iy1 < iy2"
      "rect_x r \<le> ix1" "rect_x c \<le> ix1" "ix2 \<le> right r" "ix2 \<le> right c"
      "rect_y r \<le> iy1" "rect_y c \<le> iy1" "iy2 \<le> bottom r" "iy2 \<le> bottom c"
      "ix1 = max (rect_x r) (rect_x c)" "iy1 = max (rect_y r) (rect_y c)"
      "ix2 = min (right r) (right c)" "iy2 = min (bottom r) (bottom c)"
      "subtract_rect r c =
         (if rect_x r < ix1 then [Rect (rect_x r) (rect_y r) (ix1 - rect_x r) (rect_height r)] else []) @
         (if right r > ix2 then [Rect ix2 (rect_y r) (right r - ix2) (rect_height r)] else []) @
         (if rect_y r < iy1 then [Rect ix1 (rect_y r) (ix2 - ix1) (iy1 - rect_y r)] else []) @
         (if bottom r > iy2 then [Rect ix1 iy2 (ix2 - ix1) (bottom r - iy2)] else [])"
proof (cases "min (right r) (right c) \<le> max (rect_x r) (rect_x c) \<or>
              min (bottom r) (bottom c) \<le> max (rect_y r) (rect_y c)")
  case True
  then have "subtract_rect r c = [r]"
    by (simp add: subtract_rect_def Let_def)
  with True show ?thesis by (rule apart)
next
  case False
  show ?thesis
  proof (rule cut [where ?ix1.0 = "max (rect_x r) (rect_x c)" and ?iy1.0 = "max (rect_y r) (rect_y c)"
        and ?ix2.0 = "min (right r) (right c)" and ?iy2.0 = "min (bottom r) (bottom c)"])
    show "subtract_rect r c =
         (if rect_x r < max (rect_x r) (rect_x c) then [Rect (rect_x r) (rect_y r) (max (rect_x r) (rect_x c) - rect_x r) (rect_height r)] else []) @
         (if right r > min (right r) (right c) then [Rect (min (right r) (right c)) (rect_y r) (right r - min (right r) (right c)) (rect_height r)] else []) @
         (if rect_y r < max (rect_y r) (rect_y c) then [Rect (max (rect_x r) (rect_x c)) (rect_y r) (min (right r) (right c) - max (rect_x r) (rect_x c)) (max (rect_y r) (rect_y c) - rect_y r)] else []) @
         (if bottom r > min (bottom r) (bottom c) then [Rect (max (rect_x r) (rect_x c)) (min (bottom r) (bottom c)) (min (right r) (right c) - max (rect_x r) (rect_x c)) (bottom r - min (bottom r) (bottom c))] else [])"
      using False unfolding subtract_rect_def Let_def by (simp only: if_False)
  qed (use False in \<open>simp_all add: not_le\<close>)
qed


lemma subtract_rect_inside: "p \<in> set (subtract_rect r c) \<Longrightarrow> inside p r"
proof (cases rule: subtract_rect_shape [of r c])
  case apart
  assume "p \<in> set (subtract_rect r c)"
  with apart(2) show ?thesis by (simp add: inside_def)
next
  case (cut ix1 iy1 ix2 iy2)
  assume "p \<in> set (subtract_rect r c)"
  then show ?thesis
    unfolding cut(15) using cut(1-10)
    by (auto simp: inside_def bottom_def [of r] split: if_splits)
qed

lemma subtract_rect_pairwise_disjoint: "pairwise_disjoint (subtract_rect r c)"
proof (cases rule: subtract_rect_shape [of r c])
  case apart
  then show ?thesis by simp
next
  case (cut ix1 iy1 ix2 iy2)
  show ?thesis
    unfolding cut(15) using cut(1-10)
    by (simp add: intersects_def)
qed

lemma subtract_rect_clear:
  assumes "is_valid r" "is_valid c" "intersects r c" "p \<in> set (subtract_rect r c)"
  shows "\<not> intersects p c"
proof (cases rule: subtract_rect_shape [of r c])
  case apart
  then show ?thesis
    using assms overlap_box [of r c] by simp
next
  case (cut ix1 iy1 ix2 iy2)
  have e: "rect_x r < ix1 \<Longrightarrow> ix1 = rect_x c" "ix2 < right r \<Longrightarrow> ix2 = right c"
     "rect_y r < iy1 \<Longrightarrow> iy1 = rect_y c" "iy2 < bottom r \<Longrightarrow> iy2 = bottom c"
    using cut(11-14) by (auto simp: max_def min_def split: if_splits)
  from assms(4) show ?thesis
    unfolding cut(15) using e
    by (auto simp: intersects_def split: if_splits)
qed

lemma subtract_rect_area:
  assumes "is_valid r" "is_valid c" "intersects r c"
  shows "sum_list (map area (subtract_rect r c)) =
           area r - (min (right r) (right c) - max (rect_x r) (rect_x c)) *
                    (min (bottom r) (bottom c) - max (rect_y r) (rect_y c))"
proof (cases rule: subtract_rect_shape [of r c])
  case apart
  then show ?thesis
    using assms overlap_box [of r c] by simp
next
  case (cut ix1 iy1 ix2 iy2)
  have z: "\<not> rect_x r < ix1 \<Longrightarrow> ix1 = rect_x r" "\<not> ix2 < right r \<Longrightarrow> ix2 = right r"
     "\<not> rect_y r < iy1 \<Longrightarrow> iy1 = rect_y r" "\<not> iy2 < bottom r \<Longrightarrow> iy2 = bottom r"
    using cut(3,5,7,9) by auto
  have "sum_list (map area (subtract_rect r c)) =
      (ix1 - rect_x r) * rect_height r + (right r - ix2) * rect_height r +
      (ix2 - ix1) * (iy1 - rect_y r) + (ix2 - ix1) * (bottom r - iy2)"
    unfolding cut(15) using z by auto
  also have "\<dots> = area r - (ix2 - ix1) * (iy2 - iy1)"
    by (simp add: area_def right_def bottom_def algebra_simps)
  finally show ?thesis
    by (simp add: cut(11-14))
qed

section \<open>Claims about the geometry primitives\<close>

text \<open>
  Claim C6. \<open>intersects\<close> is a half-open overlap test: two rectangles of which one's
  right edge equals the other's x, or one's bottom edge equals the other's y, do not
  intersect. The instance \<open>Rect 0 0 10 10\<close>, \<open>Rect 10 0 10 10\<close> of the claim is the
  witness below.
\<close>

theorem intersects_half_open:
  assumes "right r1 = rect_x r2 \<or> right r2 = rect_x r1 \<or>
           bottom r1 = rect_y r2 \<or> bottom r2 = rect_y r1"
  shows "\<not> intersects r1 r2"
  using assms by (auto simp: intersects_def)

theorem intersects_half_open_witness:
  "right (Rect 0 0 10 10) = rect_x (Rect 10 0 10 10) \<and>
   \<not> intersects (Rect 0 0 10 10) (Rect 10 0 10 10)"
proof -
  have h: "right (Rect 0 0 10 10) = rect_x (Rect 10 0 10 10) \<or>
           right (Rect 10 0 10 10) = rect_x (Rect 0 0 10 10) \<or>
           bottom (Rect 0 0 10 10) = rect_y (Rect 10 0 10 10) \<or>
           bottom (Rect 10 0 10 10) = rect_y (Rect 0 0 10 10)"
    by simp
  from intersects_half_open [OF h] show ?thesis by simp
qed



section \<open>Sorting rearranges\<close>

lemma mset_sort_insert: "mset (sort_insert lt a bs) = add_mset a (mset bs)"
  by (induction bs) auto

lemma mset_std_sort: "mset (std_sort lt xs) = mset xs"
  by (induction xs) (auto simp: mset_sort_insert)

lemma set_std_sort: "set (std_sort lt xs) = set xs"
  using mset_std_sort [of lt xs] by (metis set_mset_mset)

lemma length_std_sort: "length (std_sort lt xs) = length xs"
  using mset_std_sort [of lt xs] by (metis size_mset)

section \<open>Placing one part\<close>

lemma get_rotated_dimensions_cong:
  "part_width p = part_width q \<Longrightarrow> part_height p = part_height q \<Longrightarrow>
   get_rotated_dimensions p rot = get_rotated_dimensions q rot"
  by (simp add: get_rotated_dimensions_def)

lemma add_part_eq:
  "add_part i px py kerf ps b =
     (ps[i := (ps ! i)\<lparr>part_x := px, part_y := py, board_id := brd_id b\<rparr>],
      b\<lparr>placed_parts := placed_parts b @ [i],
        free_rectangles := std_sort free_rect_less
          (concat (map (split_free
             (placed_rect kerf ((ps ! i)\<lparr>part_x := px, part_y := py, board_id := brd_id b\<rparr>)))
             (free_rectangles b)))\<rparr>)"
  by (simp add: add_part_def placed_rect_def Let_def split: prod.splits)

lemma first_fit_cong:
  "part_width p = part_width q \<Longrightarrow> part_height p = part_height q \<Longrightarrow>
   first_fit kerf p b rots = first_fit kerf q b rots"
  by (induction rots) (auto simp: get_rotated_dimensions_cong [of p q] split: option.splits)

lemma try_rotations_eq:
  assumes "i < length ps"
  shows "try_rotations s i rots ps b =
     (case first_fit (kerf_width s) (ps ! i) b rots of
        None \<Rightarrow> (False, (if rots = [] then ps else ps[i := (ps ! i)\<lparr>rotation := last rots\<rparr>]), b)
      | Some (rot, px, py) \<Rightarrow>
          (case add_part i px py (kerf_width s) (ps[i := (ps ! i)\<lparr>rotation := rot\<rparr>]) b of
             (ps2, b2) \<Rightarrow> (True, ps2, b2)))"
  using assms
proof (induction rots arbitrary: ps)
  case Nil
  then show ?case by simp
next
  case (Cons rot rots)
  let ?ps1 = "ps[i := (ps ! i)\<lparr>rotation := rot\<rparr>]"
  have len: "i < length ?ps1" using Cons.prems by simp
  have nth: "?ps1 ! i = (ps ! i)\<lparr>rotation := rot\<rparr>" using Cons.prems by simp
  have dims: "get_rotated_dimensions (?ps1 ! i) rot = get_rotated_dimensions (ps ! i) rot"
    unfolding nth by (rule get_rotated_dimensions_cong) simp_all
  have ff: "first_fit (kerf_width s) (?ps1 ! i) b rots = first_fit (kerf_width s) (ps ! i) b rots"
    unfolding nth by (rule first_fit_cong) simp_all
  obtain w h where wh: "get_rotated_dimensions (ps ! i) rot = (w, h)"
    by (cases "get_rotated_dimensions (ps ! i) rot") auto
  show ?case
  proof (cases "find_best_position b w h (kerf_width s)")
    case None
    have "try_rotations s i (rot # rots) ps b = try_rotations s i rots ?ps1 b"
      using None wh dims by (simp add: Let_def)
    also have "\<dots> = (case first_fit (kerf_width s) (ps ! i) b rots of
        None \<Rightarrow> (False, (if rots = [] then ?ps1 else ?ps1[i := (?ps1 ! i)\<lparr>rotation := last rots\<rparr>]), b)
      | Some (rot', px, py) \<Rightarrow>
          (case add_part i px py (kerf_width s) (?ps1[i := (?ps1 ! i)\<lparr>rotation := rot'\<rparr>]) b of
             (ps2, b2) \<Rightarrow> (True, ps2, b2)))"
      unfolding Cons.IH [OF len] ff ..
    also have "\<dots> = (case first_fit (kerf_width s) (ps ! i) b rots of
        None \<Rightarrow> (False, ps[i := (ps ! i)\<lparr>rotation := last (rot # rots)\<rparr>], b)
      | Some (rot', px, py) \<Rightarrow>
          (case add_part i px py (kerf_width s) (ps[i := (ps ! i)\<lparr>rotation := rot'\<rparr>]) b of
             (ps2, b2) \<Rightarrow> (True, ps2, b2)))"
      unfolding nth by (simp split: option.splits)
    finally show ?thesis
      using None wh by simp
  next
    case (Some pos)
    obtain px py where pos: "pos = (px, py)" by (cases pos) auto
    show ?thesis
      using Some wh dims pos by (simp add: Let_def)
  qed
qed

lemma try_place_part_eq:
  assumes "i < length ps"
  shows "try_place_part s i ps b =
     (case first_fit (kerf_width s) (ps ! i) b (allowed_rotations (ps ! i)) of
        None \<Rightarrow> (False, ps, b)
      | Some (rot, px, py) \<Rightarrow>
          (case add_part i px py (kerf_width s) (ps[i := (ps ! i)\<lparr>rotation := rot\<rparr>]) b of
             (ps2, b2) \<Rightarrow> (True, ps2, b2)))"
proof (cases "first_fit (kerf_width s) (ps ! i) b (allowed_rotations (ps ! i))")
  case None
  show ?thesis
    unfolding try_place_part_def Let_def try_rotations_eq [OF assms] None
    using assms by (simp add: list_update_same_conv)
next
  case (Some t)
  obtain rot px py where t: "t = (rot, px, py)" by (cases t) auto
  obtain ps2 b2 where ap:
    "add_part i px py (kerf_width s) (ps[i := (ps ! i)\<lparr>rotation := rot\<rparr>]) b = (ps2, b2)"
    by (cases "add_part i px py (kerf_width s) (ps[i := (ps ! i)\<lparr>rotation := rot\<rparr>]) b") auto
  show ?thesis
    unfolding try_place_part_def Let_def try_rotations_eq [OF assms] Some t
    by (simp add: ap)
qed

section \<open>Claims about one board and one part\<close>




lemma first_fit_None:
  "first_fit kerf p b rots = None \<longleftrightarrow>
     (\<forall>rot \<in> set rots. rotation_position kerf p b rot = None)"
  by (induction rots) (auto simp: rotation_position_def split: option.splits)

lemma first_fit_Some:
  assumes "\<forall>r \<in> set pre. rotation_position kerf p b r = None"
    and "rotation_position kerf p b rot = Some (px, py)"
  shows "first_fit kerf p b (pre @ rot # post) = Some (rot, px, py)"
  using assms by (induction pre) (auto simp: rotation_position_def)

text \<open>
  Claim C5. \<open>try_place_part\<close> tries the allowed rotations in the order of the list, with
  width and height swapped for 90 and 270 degrees: the first rotation for which the board
  has a position is committed by \<open>add_part\<close>; when no rotation has a position the call
  reports failure and returns the parts and the board as they were.
\<close>

theorem try_place_part_rotations:
  assumes "i < length ps"
  shows "(get_rotated_dimensions (ps ! i) 0 = (part_width (ps ! i), part_height (ps ! i)) \<and>
          get_rotated_dimensions (ps ! i) 90 = (part_height (ps ! i), part_width (ps ! i)) \<and>
          get_rotated_dimensions (ps ! i) 180 = (part_width (ps ! i), part_height (ps ! i)) \<and>
          get_rotated_dimensions (ps ! i) 270 = (part_height (ps ! i), part_width (ps ! i))) \<and>
         ((\<forall>rot \<in> set (allowed_rotations (ps ! i)).
              rotation_position (kerf_width s) (ps ! i) b rot = None) \<longrightarrow>
            try_place_part s i ps b = (False, ps, b)) \<and>
         (\<forall>pre rot post px py.
            allowed_rotations (ps ! i) = pre @ rot # post \<and>
            (\<forall>r \<in> set pre. rotation_position (kerf_width s) (ps ! i) b r = None) \<and>
            rotation_position (kerf_width s) (ps ! i) b rot = Some (px, py) \<longrightarrow>
            try_place_part s i ps b =
              (True, add_part i px py (kerf_width s) (ps[i := (ps ! i)\<lparr>rotation := rot\<rparr>]) b))"
proof (intro conjI allI impI)
  assume "\<forall>rot \<in> set (allowed_rotations (ps ! i)).
            rotation_position (kerf_width s) (ps ! i) b rot = None"
  then have "first_fit (kerf_width s) (ps ! i) b (allowed_rotations (ps ! i)) = None"
    by (simp add: first_fit_None)
  then show "try_place_part s i ps b = (False, ps, b)"
    by (simp add: try_place_part_eq [OF assms])
next
  fix pre rot post px py
  assume a: "allowed_rotations (ps ! i) = pre @ rot # post \<and>
            (\<forall>r \<in> set pre. rotation_position (kerf_width s) (ps ! i) b r = None) \<and>
            rotation_position (kerf_width s) (ps ! i) b rot = Some (px, py)"
  then have "first_fit (kerf_width s) (ps ! i) b (allowed_rotations (ps ! i)) = Some (rot, px, py)"
    using first_fit_Some [of pre "kerf_width s" "ps ! i" b rot px py post] by simp
  then show "try_place_part s i ps b =
              (True, add_part i px py (kerf_width s) (ps[i := (ps ! i)\<lparr>rotation := rot\<rparr>]) b)"
    by (simp add: try_place_part_eq [OF assms] split: prod.splits)
qed (simp_all add: get_rotated_dimensions_def)

lemma kerf_width_settings_kerf [simp]: "kerf_width (settings_kerf k) = k"
  by (simp add: settings_kerf_def)

theorem try_place_part_rotations_witness:
  "try_place_part (settings_kerf 0) 0 [new_part ''A'' ''oak'' 300 300 [0, 90]] (Board 1 ''oak'' 200 100)
     = (False, [new_part ''A'' ''oak'' 300 300 [0, 90]], Board 1 ''oak'' 200 100) \<and>
   try_place_part (settings_kerf 0) 0 [new_part ''B'' ''oak'' 150 50 [0, 90]] (Board 1 ''oak'' 100 200)
     = (True, [(new_part ''B'' ''oak'' 150 50 [0, 90])\<lparr>part_x := 0, part_y := 0, rotation := 90, board_id := 1\<rparr>],
        (Board 1 ''oak'' 100 200)\<lparr>free_rectangles := [Rect 50 0 50 200, Rect 0 150 50 50],
                                   placed_parts := [0]\<rparr>)"
proof -
  let ?A = "new_part ''A'' ''oak'' 300 300 [0, 90]"
  let ?B = "new_part ''B'' ''oak'' 150 50 [0, 90]"
  have lenA: "0 < length [?A]" and lenB: "0 < length [?B]"
    by simp_all
  have noA: "\<forall>rot \<in> set (allowed_rotations ([?A] ! 0)).
      rotation_position (kerf_width (settings_kerf 0)) ([?A] ! 0) (Board 1 ''oak'' 200 100) rot = None"
    by (simp add: new_part_def rotation_position_def get_rotated_dimensions_def
        find_best_position_def Board_def)
  have a: "try_place_part (settings_kerf 0) 0 [?A] (Board 1 ''oak'' 200 100)
     = (False, [?A], Board 1 ''oak'' 200 100)"
    using try_place_part_rotations [OF lenA, of "settings_kerf 0" "Board 1 ''oak'' 200 100",
        THEN conjunct2, THEN conjunct1] noA by (rule mp)
  have hypB: "allowed_rotations ([?B] ! 0) = [0] @ 90 # [] \<and>
      (\<forall>r \<in> set [0]. rotation_position (kerf_width (settings_kerf 0)) ([?B] ! 0)
          (Board 1 ''oak'' 100 200) r = None) \<and>
      rotation_position (kerf_width (settings_kerf 0)) ([?B] ! 0) (Board 1 ''oak'' 100 200) 90
        = Some (0, 0)"
    by (simp add: new_part_def rotation_position_def get_rotated_dimensions_def
        find_best_position_def Board_def)
  have "try_place_part (settings_kerf 0) 0 [?B] (Board 1 ''oak'' 100 200) =
      (True, add_part 0 0 0 (kerf_width (settings_kerf 0)) ([?B][0 := ([?B] ! 0)\<lparr>rotation := 90\<rparr>])
         (Board 1 ''oak'' 100 200))"
    using try_place_part_rotations [OF lenB, of "settings_kerf 0" "Board 1 ''oak'' 100 200",
        THEN conjunct2, THEN conjunct2, THEN spec, THEN spec, THEN spec, THEN spec, THEN spec,
        of "[0]" 90 "[]" 0 0] hypB by (rule mp)
  also have "\<dots> = (True, [?B\<lparr>part_x := 0, part_y := 0, rotation := 90, board_id := 1\<rparr>],
        (Board 1 ''oak'' 100 200)\<lparr>free_rectangles := [Rect 50 0 50 200, Rect 0 150 50 50],
                                   placed_parts := [0]\<rparr>)"
    by (simp add: add_part_def new_part_def get_rotated_dimensions_def Board_def split_free_def
        intersects_def subtract_rect_def free_rect_less_def Let_def)
  finally show ?thesis
    using a by simp
qed

section \<open>The board loop\<close>

lemma nest_loop_cases:
  obtains (finished) "remaining_parts = []"
      "nest_loop s material bw bh board_count boards remaining_parts ps =
         \<lparr>res_boards = boards, res_parts = ps, res_board_count = board_count, res_error = None\<rparr>"
  | (unplaceable) ps' current_board nxt where "remaining_parts \<noteq> []"
      "place_pass s remaining_parts ps (Board (board_count + 1) material bw bh) [] =
         (ps', current_board, nxt)"
      "placed_parts current_board = []"
      "nest_loop s material bw bh board_count boards remaining_parts ps =
         \<lparr>res_boards = boards, res_parts = ps', res_board_count = board_count + 1,
          res_error = Some (Unplaceable (part_id (ps' ! hd remaining_parts))
                              (part_width (ps' ! hd remaining_parts))
                              (part_height (ps' ! hd remaining_parts))
                              bw bh material)\<rparr>"
  | (next_board) ps' current_board nxt where "remaining_parts \<noteq> []"
      "place_pass s remaining_parts ps (Board (board_count + 1) material bw bh) [] =
         (ps', current_board, nxt)"
      "placed_parts current_board \<noteq> []"
      "length nxt < length remaining_parts"
      "nest_loop s material bw bh board_count boards remaining_parts ps =
         nest_loop s material bw bh (board_count + 1) (boards @ [current_board]) nxt ps'"
proof (cases "remaining_parts = []")
  case True
  then show ?thesis
    by (intro finished) (simp_all add: nest_loop.simps)
next
  case False
  obtain ps' current_board nxt where pp:
    "place_pass s remaining_parts ps (Board (board_count + 1) material bw bh) [] =
       (ps', current_board, nxt)"
    by (cases "place_pass s remaining_parts ps (Board (board_count + 1) material bw bh) []") auto
  show ?thesis
  proof (cases "placed_parts current_board = []")
    case True
    show ?thesis
      by (rule unplaceable [OF False pp True]) (subst nest_loop.simps, simp add: False pp True)
  next
    case ne: False
    show ?thesis
      by (rule next_board [OF False pp ne place_pass_progress [OF pp ne]])
        (subst nest_loop.simps, simp add: False pp ne)
  qed
qed

lemma nest_loop_count:
  "board_count \<le> res_board_count (nest_loop s material bw bh board_count boards remaining_parts ps) \<and>
   res_board_count (nest_loop s material bw bh board_count boards remaining_parts ps)
     \<le> board_count + int (length remaining_parts)"
proof (induction "length remaining_parts" arbitrary: board_count boards remaining_parts ps
    rule: less_induct)
  case less
  show ?case
  proof (cases rule: nest_loop_cases [of remaining_parts s material bw bh board_count boards ps])
    case finished
    then show ?thesis by simp
  next
    case (unplaceable ps' current_board nxt)
    then show ?thesis by (cases remaining_parts) simp_all
  next
    case (next_board ps' current_board nxt)
    from less [OF next_board(4), of "board_count + 1" "boards @ [current_board]" ps'] next_board(4)
    show ?thesis
      unfolding next_board(5) by linarith
  qed
qed




text \<open>The non-placement fields are never written with a new value.\<close>

lemma map_update_same:
  assumes "f y = f (xs ! i)"
  shows "map f (xs[i := y]) = map f xs"
proof (cases "i < length xs")
  case True
  then show ?thesis
    using assms by (simp add: map_update list_update_same_conv)
next
  case False
  then show ?thesis by (simp add: list_update_beyond)
qed

lemma add_part_static:
  "add_part i px py kerf ps b = (ps', b') \<Longrightarrow> map static_fields ps' = map static_fields ps"
  unfolding add_part_eq by (auto intro!: map_update_same simp: static_fields_def)

lemma try_rotations_static:
  "try_rotations s i rots ps b = (ok, ps', b') \<Longrightarrow> map static_fields ps' = map static_fields ps"
proof (induction rots arbitrary: ps)
  case Nil
  then show ?case by simp
next
  case (Cons rot rots)
  let ?ps1 = "ps[i := (ps ! i)\<lparr>rotation := rot\<rparr>]"
  have st1: "map static_fields ?ps1 = map static_fields ps"
    by (rule map_update_same) (simp add: static_fields_def)
  obtain w h where wh: "get_rotated_dimensions (?ps1 ! i) rot = (w, h)"
    by (cases "get_rotated_dimensions (?ps1 ! i) rot") auto
  show ?case
  proof (cases "find_best_position b w h (kerf_width s)")
    case None
    with Cons.prems wh have "try_rotations s i rots ?ps1 b = (ok, ps', b')"
      by (simp add: Let_def)
    from Cons.IH [OF this] st1 show ?thesis by simp
  next
    case (Some pos)
    obtain px py where pos: "pos = (px, py)" by (cases pos) auto
    obtain ps2 b2 where ap: "add_part i px py (kerf_width s) ?ps1 b = (ps2, b2)"
      by (cases "add_part i px py (kerf_width s) ?ps1 b") auto
    from Cons.prems wh Some pos ap have "ps' = ps2"
      by (simp add: Let_def)
    with add_part_static [OF ap] st1 show ?thesis by simp
  qed
qed

lemma try_place_part_static:
  assumes "try_place_part s i ps b = (ok, ps', b')"
  shows "map static_fields ps' = map static_fields ps"
proof -
  obtain ok1 ps1 b1 where tr: "try_rotations s i (allowed_rotations (ps ! i)) ps b = (ok1, ps1, b1)"
    by (cases "try_rotations s i (allowed_rotations (ps ! i)) ps b") auto
  note st = try_rotations_static [OF tr]
  show ?thesis
  proof (cases ok1)
    case True
    with assms tr have "ps' = ps1" by (simp add: try_place_part_def Let_def)
    with st show ?thesis by simp
  next
    case False
    with assms tr have ps': "ps' = ps1[i := (ps1 ! i)\<lparr>part_width := part_width (ps ! i),
        part_height := part_height (ps ! i), rotation := rotation (ps ! i)\<rparr>]"
      by (simp add: try_place_part_def Let_def)
    show ?thesis
    proof (cases "i < length ps")
      case True
      with st have "static_fields (ps1 ! i) = static_fields (ps ! i)"
        by (metis length_map nth_map)
      then have "static_fields ((ps1 ! i)\<lparr>part_width := part_width (ps ! i),
          part_height := part_height (ps ! i), rotation := rotation (ps ! i)\<rparr>) =
          static_fields (ps1 ! i)"
        by (simp add: static_fields_def)
      then have "map static_fields ps' = map static_fields ps1"
        unfolding ps' by (rule map_update_same)
      with st show ?thesis by simp
    next
      case False
      with st have "\<not> i < length ps1" by (metis length_map)
      with ps' st show ?thesis by (simp add: list_update_beyond)
    qed
  qed
qed

lemma place_pass_static:
  "place_pass s q ps b nxt = (ps', b', nxt') \<Longrightarrow> map static_fields ps' = map static_fields ps"
proof (induction q arbitrary: ps b nxt)
  case Nil
  then show ?case by simp
next
  case (Cons i rest)
  obtain ok ps1 b1 where tp: "try_place_part s i ps b = (ok, ps1, b1)"
    by (cases "try_place_part s i ps b") auto
  from Cons.prems tp have "\<exists>n. place_pass s rest ps1 b1 n = (ps', b', nxt')"
    by (cases ok) auto
  then obtain n where "place_pass s rest ps1 b1 n = (ps', b', nxt')" ..
  from Cons.IH [OF this] try_place_part_static [OF tp] show ?case by simp
qed

lemma nest_loop_static:
  "map static_fields (res_parts (nest_loop s material bw bh board_count boards remaining_parts ps)) =
   map static_fields ps"
proof (induction "length remaining_parts" arbitrary: board_count boards remaining_parts ps
    rule: less_induct)
  case less
  show ?case
  proof (cases rule: nest_loop_cases [of remaining_parts s material bw bh board_count boards ps])
    case finished
    then show ?thesis by simp
  next
    case (unplaceable ps' current_board nxt)
    with place_pass_static [OF unplaceable(2)] show ?thesis by simp
  next
    case (next_board ps' current_board nxt)
    from less [OF next_board(4), of "board_count + 1" "boards @ [current_board]" ps']
      place_pass_static [OF next_board(2)]
    show ?thesis
      unfolding next_board(5) by simp
  qed
qed

section \<open>Claims about the board loop\<close>


lemma place_pass_oversize:
  "place_pass (settings_kerf 0) [0] [new_part ''A'' ''oak'' 300 300 [0, 90]]
     (Board 2 ''oak'' 200 100) [] =
   ([new_part ''A'' ''oak'' 300 300 [0, 90]], Board 2 ''oak'' 200 100, [0])"
proof -
  have "first_fit 0 (new_part ''A'' ''oak'' 300 300 [0, 90]) (Board 2 ''oak'' 200 100) [0, 90] = None"
    by (simp add: new_part_def get_rotated_dimensions_def find_best_position_def Board_def)
  then have "try_place_part (settings_kerf 0) 0 [new_part ''A'' ''oak'' 300 300 [0, 90]]
      (Board 2 ''oak'' 200 100) =
      (False, [new_part ''A'' ''oak'' 300 300 [0, 90]], Board 2 ''oak'' 200 100)"
    by (simp add: try_place_part_eq new_part_def settings_kerf_def)
  then show ?thesis by simp
qed


text \<open>
  Claim C9. The board loop is a total function: its recursion is accepted with the length
  of the queue as measure. A pass moves every queued part either onto the board or into
  the next queue, so a pass that places a part shortens the queue and a pass that places
  none ends the loop; the number of passes is at most the number of parts.
\<close>

theorem nest_parts_passes:
  "res_board_count (nest_parts s parts material bw bh) \<le> int (length parts) \<and>
   (\<forall>n remaining_parts ps ps' current_board nxt.
      place_pass s remaining_parts ps (Board n material bw bh) [] = (ps', current_board, nxt) \<longrightarrow>
      length (placed_parts current_board) + length nxt = length remaining_parts \<and>
      (placed_parts current_board = [] \<or> length nxt < length remaining_parts))"
proof (intro conjI allI impI)
  show "res_board_count (nest_parts s parts material bw bh) \<le> int (length parts)"
    using nest_loop_count [of 0 s material bw bh "[]" "[0..<length (std_sort area_greater parts)]"
        "std_sort area_greater parts"]
    by (simp add: nest_parts_def Let_def length_std_sort)
next
  fix n remaining_parts ps ps' current_board nxt
  assume pp: "place_pass s remaining_parts ps (Board n material bw bh) [] = (ps', current_board, nxt)"
  from place_pass_count [OF pp]
  show "length (placed_parts current_board) + length nxt = length remaining_parts"
    by (simp add: Board_def)
  then show "placed_parts current_board = [] \<or> length nxt < length remaining_parts"
    by (cases "placed_parts current_board") simp_all
qed

theorem nest_parts_passes_witness:
  "res_board_count (nest_parts (settings_kerf 0) [new_part ''A'' ''oak'' 300 300 [0, 90]]
      ''oak'' 200 100) \<le> 1 \<and>
   place_pass (settings_kerf 0) [0] [new_part ''A'' ''oak'' 300 300 [0, 90]]
     (Board 2 ''oak'' 200 100) [] =
     ([new_part ''A'' ''oak'' 300 300 [0, 90]], Board 2 ''oak'' 200 100, [0]) \<and>
   length (placed_parts (Board 2 ''oak'' 200 100)) + length [0::nat] = length [0::nat]"
proof -
  note t = nest_parts_passes [of "settings_kerf 0" "[new_part ''A'' ''oak'' 300 300 [0, 90]]"
      "''oak''" 200 100]
  from t have a: "res_board_count (nest_parts (settings_kerf 0)
      [new_part ''A'' ''oak'' 300 300 [0, 90]] ''oak'' 200 100) \<le> 1"
    by simp
  from t place_pass_oversize
  have b: "length (placed_parts (Board 2 ''oak'' 200 100)) + length [0::nat] = length [0::nat]"
    by blast
  from a b place_pass_oversize show ?thesis by simp
qed

text \<open>
  Claim C8. \<open>nest_parts\<close> changes placement fields only: the parts it returns are the
  input parts in the order of the area sort, each with its id, material, width, height,
  grain direction and allowed rotations as given; so the multiset of these fields is that
  of the input.
\<close>

theorem nest_parts_frame:
  "map static_fields (res_parts (nest_parts s parts material bw bh)) =
     map static_fields (std_sort area_greater parts) \<and>
   mset (map static_fields (res_parts (nest_parts s parts material bw bh))) =
     mset (map static_fields parts)"
proof -
  have a: "map static_fields (res_parts (nest_parts s parts material bw bh)) =
     map static_fields (std_sort area_greater parts)"
    by (simp add: nest_parts_def Let_def nest_loop_static)
  have "mset (map static_fields (std_sort area_greater parts)) = mset (map static_fields parts)"
    by (simp add: mset_std_sort)
  with a show ?thesis by simp
qed

theorem nest_parts_frame_witness:
  "map static_fields (res_parts (nest_parts (settings_kerf 3)
      [new_part ''A'' ''oak'' 50 50 [0], new_part ''B'' ''oak'' 100 100 [0, 90]] ''oak'' 200 100)) =
   [(''B'', ''oak'', 100, 100, ''any'', [0, 90]), (''A'', ''oak'', 50, 50, ''any'', [0])]"
  using nest_parts_frame [of "settings_kerf 3"
      "[new_part ''A'' ''oak'' 50 50 [0], new_part ''B'' ''oak'' 100 100 [0, 90]]" "''oak''" 200 100,
      THEN conjunct1]
  by (simp add: static_fields_def new_part_def area_greater_def part_area_def)

section \<open>The end-to-end example\<close>

lemma two_squares_run:
  assumes k: "kerf_width s = 0"
    and d1: "part_width p1 = 100" "part_height p1 = 100"
    and d2: "part_width p2 = 100" "part_height p2 = 100"
    and r1: "allowed_rotations p1 = rot1 # rots1"
    and r2: "allowed_rotations p2 = rot2 # rots2"
  shows "nest_parts s [p1, p2] material 200 100 =
     \<lparr>res_boards = [\<lparr>brd_id = 1, brd_material = material, brd_width = 200, brd_height = 100,
                      free_rectangles = [], placed_parts = [0, 1]\<rparr>],
      res_parts = [p1\<lparr>rotation := rot1, part_x := 0, part_y := 0, board_id := 1\<rparr>,
                   p2\<lparr>rotation := rot2, part_x := 100, part_y := 0, board_id := 1\<rparr>],
      res_board_count = 1, res_error = None\<rparr>"
proof -
  let ?B0 = "Board 1 material 200 100"
  let ?q1 = "p1\<lparr>rotation := rot1, part_x := 0, part_y := 0, board_id := 1\<rparr>"
  let ?q2 = "p2\<lparr>rotation := rot2, part_x := 100, part_y := 0, board_id := 1\<rparr>"
  let ?B1 = "\<lparr>brd_id = 1, brd_material = material, brd_width = 200, brd_height = 100,
             free_rectangles = [Rect 100 0 100 100], placed_parts = [0]\<rparr>"
  let ?B2 = "\<lparr>brd_id = 1, brd_material = material, brd_width = 200, brd_height = 100,
             free_rectangles = [], placed_parts = [0, 1]\<rparr>"
  have sorted: "std_sort area_greater [p1, p2] = [p1, p2]"
    by (simp add: area_greater_def part_area_def d1 d2)
  have g1: "get_rotated_dimensions p1 rot = (100, 100)" for rot
    by (simp add: get_rotated_dimensions_def d1)
  have g2: "get_rotated_dimensions p2 rot = (100, 100)" for rot
    by (simp add: get_rotated_dimensions_def d2)
  have f1: "first_fit 0 p1 ?B0 (rot1 # rots1) = Some (rot1, 0, 0)"
    by (simp add: g1 find_best_position_def Board_def)
  have a1: "add_part 0 0 0 0 [p1\<lparr>rotation := rot1\<rparr>, p2] ?B0 = ([?q1, p2], ?B1)"
    by (simp add: add_part_def get_rotated_dimensions_def d1 Board_def split_free_def
        intersects_def subtract_rect_def Let_def)
  have t1: "try_place_part s 0 [p1, p2] ?B0 = (True, [?q1, p2], ?B1)"
    by (simp add: try_place_part_eq k r1 f1 a1 del: first_fit.simps)
  have f2: "first_fit 0 p2 ?B1 (rot2 # rots2) = Some (rot2, 100, 0)"
    by (simp add: g2 find_best_position_def)
  have a2: "add_part (Suc 0) 100 0 0 [?q1, p2\<lparr>rotation := rot2\<rparr>] ?B1 = ([?q1, ?q2], ?B2)"
    by (simp add: add_part_def get_rotated_dimensions_def d2 split_free_def
        intersects_def subtract_rect_def Let_def)
  have t2: "try_place_part s (Suc 0) [?q1, p2] ?B1 = (True, [?q1, ?q2], ?B2)"
    by (simp add: try_place_part_eq k r2 f2 a2 del: first_fit.simps)
  have pass: "place_pass s [0, Suc 0] [p1, p2] ?B0 [] = ([?q1, ?q2], ?B2, [])"
    by (simp add: t1 t2)
  have "nest_loop s material 200 100 0 [] [0, Suc 0] [p1, p2] =
      nest_loop s material 200 100 1 [?B2] [] [?q1, ?q2]"
    by (subst nest_loop.simps) (simp add: pass del: place_pass.simps)
  also have "\<dots> = \<lparr>res_boards = [?B2], res_parts = [?q1, ?q2], res_board_count = 1,
      res_error = None\<rparr>"
    by (subst nest_loop.simps) simp
  finally have loop: "nest_loop s material 200 100 0 [] [0, Suc 0] [p1, p2] =
      \<lparr>res_boards = [?B2], res_parts = [?q1, ?q2], res_board_count = 1, res_error = None\<rparr>" .
  have "[0..<length [p1, p2]] = [0, Suc 0]"
    by (simp add: upt_rec)
  then show ?thesis
    unfolding nest_parts_def Let_def sorted by (simp add: loop)
qed

text \<open>
  Claim C7 fails as stated: it says nothing of the rotations the two parts allow, and with
  none allowed (the default of \<^verbatim>\<open>struct Part\<close>) no part is placed and no board is returned.
\<close>

theorem nest_two_squares_counterexample:
  "nest_parts (settings_kerf 0)
     [new_part ''A'' ''oak'' 100 100 [], new_part ''B'' ''oak'' 100 100 []] ''oak'' 200 100 =
   \<lparr>res_boards = [],
    res_parts = [new_part ''A'' ''oak'' 100 100 [], new_part ''B'' ''oak'' 100 100 []],
    res_board_count = 1,
    res_error = Some (Unplaceable ''A'' 100 100 200 100 ''oak'')\<rparr>"
proof -
  let ?A = "new_part ''A'' ''oak'' 100 100 []"
  let ?B = "new_part ''B'' ''oak'' 100 100 []"
  let ?brd = "Board 1 ''oak'' 200 100"
  have sorted: "std_sort area_greater [?A, ?B] = [?A, ?B]"
    by (simp add: area_greater_def part_area_def new_part_def)
  have r: "allowed_rotations ?A = []" "allowed_rotations ?B = []"
    by (simp_all add: new_part_def)
  have t1: "try_place_part (settings_kerf 0) 0 [?A, ?B] ?brd = (False, [?A, ?B], ?brd)"
    by (simp add: try_place_part_eq r)
  have t2: "try_place_part (settings_kerf 0) (Suc 0) [?A, ?B] ?brd = (False, [?A, ?B], ?brd)"
    by (simp add: try_place_part_eq r)
  have pass: "place_pass (settings_kerf 0) [0, Suc 0] [?A, ?B] ?brd [] = ([?A, ?B], ?brd, [0, Suc 0])"
    by (simp add: t1 t2)
  have loop: "nest_loop (settings_kerf 0) ''oak'' 200 100 0 [] [0, Suc 0] [?A, ?B] =
      \<lparr>res_boards = [], res_parts = [?A, ?B], res_board_count = 1,
       res_error = Some (Unplaceable ''A'' 100 100 200 100 ''oak'')\<rparr>"
    by (subst nest_loop.simps) (simp add: pass del: place_pass.simps, simp add: Board_def new_part_def)
  have "[0..<length [?A, ?B]] = [0, Suc 0]"
    by (simp add: upt_rec)
  then show ?thesis
    unfolding nest_parts_def Let_def sorted by (simp add: loop)
qed

text \<open>
  Claim C7, amended. On a 200 by 100 board with kerf 0, two parts of 100 by 100, each allowing at
  least one rotation, end on one board, the first at (0, 0) and the second at (100, 0),
  and the board's waste percentage is 0.
\<close>

theorem nest_two_squares:
  assumes "kerf_width s = 0"
    and "part_width p1 = 100" "part_height p1 = 100"
    and "part_width p2 = 100" "part_height p2 = 100"
    and "allowed_rotations p1 \<noteq> []" "allowed_rotations p2 \<noteq> []"
  shows "map placed_parts (res_boards (nest_parts s [p1, p2] material 200 100)) = [[0, 1]] \<and>
         map (\<lambda>p. (part_x p, part_y p, board_id p))
             (res_parts (nest_parts s [p1, p2] material 200 100)) = [(0, 0, 1), (100, 0, 1)] \<and>
         map static_fields (res_parts (nest_parts s [p1, p2] material 200 100)) =
           [static_fields p1, static_fields p2] \<and>
         map (waste_percentage (res_parts (nest_parts s [p1, p2] material 200 100)))
             (res_boards (nest_parts s [p1, p2] material 200 100)) = [0] \<and>
         res_error (nest_parts s [p1, p2] material 200 100) = None"
proof -
  from assms(6) obtain rot1 rots1 where r1: "allowed_rotations p1 = rot1 # rots1"
    by (cases "allowed_rotations p1") auto
  from assms(7) obtain rot2 rots2 where r2: "allowed_rotations p2 = rot2 # rots2"
    by (cases "allowed_rotations p2") auto
  show ?thesis
    unfolding two_squares_run [OF assms(1-5) r1 r2]
    by (simp add: waste_percentage_def used_area_def part_area_def static_fields_def assms(2-5))
qed

theorem nest_two_squares_witness:
  "map placed_parts (res_boards (nest_parts (settings_kerf 0)
      [new_part ''A'' ''oak'' 100 100 [0, 90], new_part ''B'' ''oak'' 100 100 [0, 90]]
      ''oak'' 200 100)) = [[0, 1]] \<and>
   map (\<lambda>p. (part_x p, part_y p, board_id p)) (res_parts (nest_parts (settings_kerf 0)
      [new_part ''A'' ''oak'' 100 100 [0, 90], new_part ''B'' ''oak'' 100 100 [0, 90]]
      ''oak'' 200 100)) = [(0, 0, 1), (100, 0, 1)] \<and>
   map (waste_percentage (res_parts (nest_parts (settings_kerf 0)
      [new_part ''A'' ''oak'' 100 100 [0, 90], new_part ''B'' ''oak'' 100 100 [0, 90]]
      ''oak'' 200 100)))
     (res_boards (nest_parts (settings_kerf 0)
      [new_part ''A'' ''oak'' 100 100 [0, 90], new_part ''B'' ''oak'' 100 100 [0, 90]]
      ''oak'' 200 100)) = [0]"
proof -
  have h: "kerf_width (settings_kerf 0) = 0"
    "part_width (new_part ''A'' ''oak'' 100 100 [0, 90]) = 100"
    "part_height (new_part ''A'' ''oak'' 100 100 [0, 90]) = 100"
    "part_width (new_part ''B'' ''oak'' 100 100 [0, 90]) = 100"
    "part_height (new_part ''B'' ''oak'' 100 100 [0, 90]) = 100"
    "allowed_rotations (new_part ''A'' ''oak'' 100 100 [0, 90]) \<noteq> []"
    "allowed_rotations (new_part ''B'' ''oak'' 100 100 [0, 90]) \<noteq> []"
    by (simp_all add: new_part_def)
  from nest_two_squares [OF h, of "''oak''"] show ?thesis
    by blast
qed

section \<open>Free space after a placement\<close>

lemma pairwise_disjoint_append:
  "pairwise_disjoint (xs @ ys) \<longleftrightarrow>
     pairwise_disjoint xs \<and> pairwise_disjoint ys \<and>
     (\<forall>a \<in> set xs. \<forall>b \<in> set ys. \<not> intersects a b)"
  by (induction xs) auto

lemma pairwise_disjoint_filter:
  "pairwise_disjoint xs \<Longrightarrow> pairwise_disjoint (filter P xs)"
  by (induction xs) auto

lemma set_sort_insert: "set (sort_insert lt a bs) = insert a (set bs)"
  by (induction bs) auto

lemma pairwise_disjoint_sort_insert:
  "pairwise_disjoint (sort_insert lt a bs) \<longleftrightarrow> pairwise_disjoint (a # bs)"
proof (induction bs)
  case Nil
  then show ?case by simp
next
  case (Cons b bs)
  show ?case
  proof (cases "lt b a")
    case True
    then show ?thesis
      using Cons.IH intersects_sym [of a b] by (auto simp: set_sort_insert)
  next
    case False
    then show ?thesis by simp
  qed
qed

lemma pairwise_disjoint_std_sort:
  "pairwise_disjoint (std_sort lt xs) \<longleftrightarrow> pairwise_disjoint xs"
  by (induction xs) (simp_all add: pairwise_disjoint_sort_insert set_std_sort)

lemma inside_refl: "inside a a"
  by (simp add: inside_def)

lemma inside_trans: "inside a b \<Longrightarrow> inside b c \<Longrightarrow> inside a c"
  by (auto simp: inside_def)

lemma inside_apart:
  "inside a f \<Longrightarrow> inside b g \<Longrightarrow> \<not> intersects f g \<Longrightarrow> \<not> intersects a b"
  by (auto simp: inside_def intersects_def)

lemma split_free_valid:
  "is_valid f \<Longrightarrow> p \<in> set (split_free n f) \<Longrightarrow> is_valid p"
  by (auto simp: split_free_def split: if_splits)

lemma split_free_inside:
  "p \<in> set (split_free n f) \<Longrightarrow> inside p f"
  by (auto simp: split_free_def inside_refl subtract_rect_inside split: if_splits)

lemma split_free_pairwise_disjoint: "pairwise_disjoint (split_free n f)"
  by (simp add: split_free_def pairwise_disjoint_filter subtract_rect_pairwise_disjoint)

lemma split_free_clear:
  assumes "is_valid f" "is_valid n" "p \<in> set (split_free n f)"
  shows "\<not> intersects p n"
proof (cases "intersects f n")
  case True
  with assms(3) have "p \<in> set (subtract_rect f n)"
    by (simp add: split_free_def)
  from subtract_rect_clear [OF assms(1,2) True this] show ?thesis .
next
  case False
  with assms(3) show ?thesis
    by (simp add: split_free_def)
qed

lemma concat_split_free_pairwise_disjoint:
  "pairwise_disjoint fs \<Longrightarrow> pairwise_disjoint (concat (map (split_free n) fs))"
proof (induction fs)
  case Nil
  then show ?case by simp
next
  case (Cons f fs)
  have "\<not> intersects a b"
    if "a \<in> set (split_free n f)" "g \<in> set fs" "b \<in> set (split_free n g)" for a b g
  proof -
    from Cons.prems that(2) have "\<not> intersects f g" by simp
    from inside_apart [OF split_free_inside [OF that(1)] split_free_inside [OF that(3)] this]
    show ?thesis .
  qed
  with Cons show ?case
    by (auto simp: pairwise_disjoint_append split_free_pairwise_disjoint)
qed

text \<open>What \<open>add_part\<close> does to the free rectangles, whatever rectangle is placed.\<close>

lemma add_part_free:
  assumes "add_part i px py kerf ps b = (ps', b')"
  shows "set (free_rectangles b') =
           (\<Union>f \<in> set (free_rectangles b). set (split_free
              (placed_rect kerf ((ps ! i)\<lparr>part_x := px, part_y := py, board_id := brd_id b\<rparr>)) f))"
    and "pairwise_disjoint (free_rectangles b) \<Longrightarrow> pairwise_disjoint (free_rectangles b')"
  using assms unfolding add_part_eq
  by (auto simp: set_std_sort pairwise_disjoint_std_sort concat_split_free_pairwise_disjoint)

lemma add_part_free_ok:
  assumes "free_ok b"
  shows "free_ok (snd (add_part i px py kerf ps b))"
proof -
  obtain ps' b' where ap: "add_part i px py kerf ps b = (ps', b')"
    by (cases "add_part i px py kerf ps b") auto
  have "is_valid g" if "g \<in> set (free_rectangles b')" for g
  proof -
    from that obtain f where "f \<in> set (free_rectangles b)"
      "g \<in> set (split_free
              (placed_rect kerf ((ps ! i)\<lparr>part_x := px, part_y := py, board_id := brd_id b\<rparr>)) f)"
      unfolding add_part_free(1) [OF ap] by auto
    with assms show ?thesis
      by (auto simp: free_ok_def intro: split_free_valid)
  qed
  with assms add_part_free(2) [OF ap] show ?thesis
    by (simp add: free_ok_def ap)
qed


section \<open>The invariant of a board\<close>

lemma scan_free_Some:
  "scan_free ew eh bw bh rs = Some (px, py) \<Longrightarrow>
   \<exists>f \<in> set rs. px = rect_x f \<and> py = rect_y f \<and> ew \<le> rect_width f \<and> eh \<le> rect_height f \<and>
     rect_x f + ew \<le> bw \<and> rect_y f + eh \<le> bh"
  by (induction rs) (auto split: if_splits)

lemma find_best_position_Some:
  assumes "find_best_position b w h kerf = Some (px, py)"
  shows "(placed_parts b = [] \<and> \<bar>w - brd_width b\<bar> < 1 / 10 \<and> \<bar>h - brd_height b\<bar> < 1 / 10 \<and>
          px = 0 \<and> py = 0) \<or>
         (\<exists>f \<in> set (free_rectangles b). px = rect_x f \<and> py = rect_y f \<and>
            w + kerf \<le> rect_width f \<and> h + kerf \<le> rect_height f \<and>
            rect_x f + (w + kerf) \<le> brd_width b \<and> rect_y f + (h + kerf) \<le> brd_height b)"
proof (cases "placed_parts b = [] \<and> \<bar>w - brd_width b\<bar> < 1 / 10 \<and> \<bar>h - brd_height b\<bar> < 1 / 10")
  case True
  with assms show ?thesis by (simp add: find_best_position_def)
next
  case False
  with assms have "scan_free (w + kerf) (h + kerf) (brd_width b) (brd_height b)
      (free_rectangles b) = Some (px, py)"
    by (metis find_best_position_def)
  from scan_free_Some [OF this] show ?thesis by simp
qed

lemma board_inv_cong:
  assumes "\<forall>i \<in> set (placed_parts b). ps' ! i = ps ! i"
  shows "board_inv kerf ps' b = board_inv kerf ps b"
proof -
  have m: "map (\<lambda>i. placed_rect kerf (ps' ! i)) (placed_parts b) =
           map (\<lambda>i. placed_rect kerf (ps ! i)) (placed_parts b)"
    using assms by simp
  have t: "\<forall>i \<in> set (tl (placed_parts b)). ps' ! i = ps ! i"
    using assms by (cases "placed_parts b") simp_all
  have h: "placed_parts b \<noteq> [] \<Longrightarrow> ps' ! hd (placed_parts b) = ps ! hd (placed_parts b)"
    using assms by (cases "placed_parts b") simp_all
  show ?thesis
    unfolding board_inv_def layout_ok_def m
    using assms t h by auto
qed

lemma Board_inv: "0 < w \<Longrightarrow> 0 < h \<Longrightarrow> board_inv kerf ps (Board n mat w h)"
  by (simp add: board_inv_def layout_ok_def free_ok_def Board_def within_board_def inside_def)

lemma pairwise_disjoint_elems:
  "pairwise_disjoint fs \<Longrightarrow> a \<in> set fs \<Longrightarrow> b \<in> set fs \<Longrightarrow> a \<noteq> b \<Longrightarrow> \<not> intersects a b"
  by (induction fs) (auto simp: intersects_sym)

lemma intersects_valid:
  "intersects f n \<Longrightarrow> rect_x n \<le> rect_x f \<Longrightarrow> rect_y n \<le> rect_y f \<Longrightarrow> is_valid n"
  by (auto simp: intersects_def is_valid_def right_def bottom_def)

lemma place_step:
  assumes inv: "board_inv kerf ps b"
    and i: "i < length ps" "i \<notin> set (placed_parts b)"
    and dims: "get_rotated_dimensions (ps ! i) (rotation (ps ! i)) = (w, h)"
    and pos: "find_best_position b w h kerf = Some (px, py)"
    and ap: "add_part i px py kerf ps b = (ps', b')"
  shows "board_inv kerf ps' b'"
proof -
  define q where "q = (ps ! i)\<lparr>part_x := px, part_y := py, board_id := brd_id b\<rparr>"
  define n where "n = Rect px py (w + kerf) (h + kerf)"
  have "get_rotated_dimensions q (rotation q) = get_rotated_dimensions (ps ! i) (rotation (ps ! i))"
    by (simp add: q_def get_rotated_dimensions_def)
  with dims have qd: "get_rotated_dimensions q (rotation q) = (w, h)"
    by simp
  have qxy: "part_x q = px" "part_y q = py"
    by (simp_all add: q_def)
  have nq: "placed_rect kerf q = n"
    unfolding placed_rect_def qd n_def by (simp add: qxy)
  from ap have ps': "ps' = ps[i := q]"
    and placed': "placed_parts b' = placed_parts b @ [i]"
    and bw: "brd_width b' = brd_width b" and bh: "brd_height b' = brd_height b"
    unfolding add_part_eq q_def by auto
  have free': "set (free_rectangles b') = (\<Union>f \<in> set (free_rectangles b). set (split_free n f))"
    using add_part_free(1) [OF ap] nq by (simp add: q_def)
  have wb: "within_board b' r = within_board b r" for r
    by (simp add: within_board_def bw bh)
  have old: "ps' ! j = ps ! j" if "j \<in> set (placed_parts b)" for j
  proof -
    from that i(2) have "i \<noteq> j" by auto
    then show ?thesis by (simp add: ps')
  qed
  have new: "ps' ! i = q"
    using i(1) by (simp add: ps')
  have rects: "map (\<lambda>j. placed_rect kerf (ps' ! j)) (placed_parts b') =
      map (\<lambda>j. placed_rect kerf (ps ! j)) (placed_parts b) @ [n]"
    using old by (simp add: placed' new nq)
  from inv have
    pd_placed: "pairwise_disjoint (map (\<lambda>j. placed_rect kerf (ps ! j)) (placed_parts b))"
    and tl_in: "\<forall>j \<in> set (tl (placed_parts b)). within_board b (placed_rect kerf (ps ! j))"
    and hd_in: "placed_parts b \<noteq> [] \<longrightarrow>
        within_board b (placed_rect kerf (ps ! hd (placed_parts b))) \<or>
        full_sheet b (ps ! hd (placed_parts b))"
    and fv: "\<forall>f \<in> set (free_rectangles b). is_valid f"
    and fpd: "pairwise_disjoint (free_rectangles b)"
    and fin: "\<forall>f \<in> set (free_rectangles b). within_board b f"
    and pf: "\<forall>j \<in> set (placed_parts b). \<forall>f \<in> set (free_rectangles b).
        \<not> intersects (placed_rect kerf (ps ! j)) f"
    by (simp_all add: board_inv_def layout_ok_def free_ok_def)
  have "\<exists>f \<in> set (free_rectangles b). inside n f \<and> within_board b n \<and>
      rect_x n = rect_x f \<and> rect_y n = rect_y f"
    if f: "f \<in> set (free_rectangles b)"
      and c: "px = rect_x f" "py = rect_y f" "w + kerf \<le> rect_width f" "h + kerf \<le> rect_height f"
        "rect_x f + (w + kerf) \<le> brd_width b" "rect_y f + (h + kerf) \<le> brd_height b" for f
  proof -
    have a: "inside n f"
      using c by (simp add: inside_def n_def right_def bottom_def)
    from fin f have "within_board b f" by simp
    then have "within_board b n"
      using c by (simp add: within_board_def inside_def n_def)
    with f a c(1,2) show ?thesis by (auto simp: n_def)
  qed
  with find_best_position_Some [OF pos]
  have "(placed_parts b = [] \<and> \<bar>w - brd_width b\<bar> < 1 / 10 \<and> \<bar>h - brd_height b\<bar> < 1 / 10 \<and>
          px = 0 \<and> py = 0) \<or>
        (\<exists>f \<in> set (free_rectangles b). inside n f \<and> within_board b n \<and>
           rect_x n = rect_x f \<and> rect_y n = rect_y f)"
    by blast
  then consider (sheet) "placed_parts b = []" "\<bar>w - brd_width b\<bar> < 1 / 10"
      "\<bar>h - brd_height b\<bar> < 1 / 10" "px = 0" "py = 0"
    | (fit) f where "f \<in> set (free_rectangles b)" "inside n f" "within_board b n"
        "rect_x n = rect_x f" "rect_y n = rect_y f"
    by blast
  note how = this
  have placed_n: "\<forall>j \<in> set (placed_parts b). \<not> intersects (placed_rect kerf (ps ! j)) n"
  proof (cases rule: how)
    case sheet
    then show ?thesis by simp
  next
    case (fit f)
    show ?thesis
    proof
      fix j assume "j \<in> set (placed_parts b)"
      with pf fit(1) have "\<not> intersects (placed_rect kerf (ps ! j)) f" by simp
      from inside_apart [OF inside_refl fit(2) this]
      show "\<not> intersects (placed_rect kerf (ps ! j)) n" .
    qed
  qed
  have c1: "pairwise_disjoint (map (\<lambda>j. placed_rect kerf (ps' ! j)) (placed_parts b'))"
    unfolding rects using pd_placed placed_n by (simp add: pairwise_disjoint_append)
  have c2: "\<forall>j \<in> set (tl (placed_parts b')). within_board b' (placed_rect kerf (ps' ! j))"
  proof (cases "placed_parts b")
    case Nil
    then show ?thesis by (simp add: placed')
  next
    case (Cons a as)
    have "within_board b n"
    proof (cases rule: how)
      case sheet
      with Cons show ?thesis by simp
    next
      case (fit f)
      then show ?thesis by simp
    qed
    moreover have "ps' ! j = ps ! j" if "j \<in> set as" for j
      using old [of j] that Cons by simp
    ultimately show ?thesis
      using tl_in Cons by (simp add: placed' wb new nq)
  qed
  have c3: "placed_parts b' \<noteq> [] \<longrightarrow>
        within_board b' (placed_rect kerf (ps' ! hd (placed_parts b'))) \<or>
        full_sheet b' (ps' ! hd (placed_parts b'))"
  proof (cases "placed_parts b")
    case Nil
    show ?thesis
    proof (cases rule: how)
      case sheet
      then have "full_sheet b' q"
        unfolding full_sheet_def qd by (simp add: bw bh qxy)
      with Nil show ?thesis by (simp add: placed' new)
    next
      case (fit f)
      with Nil show ?thesis by (simp add: placed' new nq wb)
    qed
  next
    case (Cons a as)
    then have "ps' ! a = ps ! a" using old [of a] by simp
    moreover have "full_sheet b' p = full_sheet b p" for p
      by (simp add: full_sheet_def bw bh)
    ultimately show ?thesis
      using hd_in Cons by (simp add: placed' wb)
  qed
  have c4: "\<forall>g \<in> set (free_rectangles b'). is_valid g"
    unfolding free' using fv by (auto intro: split_free_valid)
  have c5: "pairwise_disjoint (free_rectangles b')"
    using add_part_free(2) [OF ap fpd] .
  have c6: "\<forall>g \<in> set (free_rectangles b'). within_board b' g"
  proof
    fix g assume "g \<in> set (free_rectangles b')"
    then obtain f where f: "f \<in> set (free_rectangles b)" "g \<in> set (split_free n f)"
      unfolding free' by auto
    from fin f(1) have "inside f (Rect 0 0 (brd_width b) (brd_height b))"
      by (simp add: within_board_def)
    from inside_trans [OF split_free_inside [OF f(2)] this]
    show "within_board b' g" by (simp add: within_board_def bw bh)
  qed
  have c7: "\<forall>j \<in> set (placed_parts b'). \<forall>g \<in> set (free_rectangles b').
        \<not> intersects (placed_rect kerf (ps' ! j)) g"
  proof (intro ballI)
    fix j g assume j: "j \<in> set (placed_parts b')" and "g \<in> set (free_rectangles b')"
    then obtain f where f: "f \<in> set (free_rectangles b)" "g \<in> set (split_free n f)"
      unfolding free' by auto
    show "\<not> intersects (placed_rect kerf (ps' ! j)) g"
    proof (cases "j = i")
      case True
      have "\<not> intersects g n"
      proof (cases "intersects f n")
        case False
        with f(2) show ?thesis by (simp add: split_free_def)
      next
        case cut: True
        have "is_valid n"
        proof (cases rule: how)
          case sheet
          from fin f(1) have "0 \<le> rect_x f" "0 \<le> rect_y f"
            by (simp_all add: within_board_def inside_def)
          with sheet(4,5) have "rect_x n \<le> rect_x f" "rect_y n \<le> rect_y f"
            by (simp_all add: n_def)
          with cut show ?thesis by (rule intersects_valid)
        next
          case (fit f0)
          have "f = f0"
          proof (rule ccontr)
            assume "f \<noteq> f0"
            from pairwise_disjoint_elems [OF fpd fit(1) f(1)] this
            have "\<not> intersects f0 f" by simp
            from inside_apart [OF fit(2) inside_refl this] cut
            show False by (simp add: intersects_sym [of n f])
          qed
          with fit(4,5) have "rect_x n \<le> rect_x f" "rect_y n \<le> rect_y f"
            by simp_all
          with cut show ?thesis by (rule intersects_valid)
        qed
        from fv f(1) have "is_valid f" by simp
        from split_free_clear [OF this \<open>is_valid n\<close> f(2)] show ?thesis .
      qed
      then show ?thesis
        using True by (simp add: new nq intersects_sym [of n g])
    next
      case False
      with j have jp: "j \<in> set (placed_parts b)" by (simp add: placed')
      with pf f(1) have "\<not> intersects (placed_rect kerf (ps ! j)) f" by simp
      from inside_apart [OF inside_refl split_free_inside [OF f(2)] this]
      show ?thesis by (simp add: old [OF jp])
    qed
  qed
  from c1 c2 c3 c4 c5 c6 c7 show ?thesis
    unfolding board_inv_def layout_ok_def free_ok_def by blast
qed

lemma first_fit_position:
  "first_fit kerf p b rots = Some (rot, px, py) \<Longrightarrow>
   find_best_position b (fst (get_rotated_dimensions p rot))
     (snd (get_rotated_dimensions p rot)) kerf = Some (px, py)"
  by (induction rots) (auto split: option.splits)

lemma try_place_part_inv:
  assumes inv: "board_inv (kerf_width s) ps b"
    and i: "i < length ps" "i \<notin> set (placed_parts b)"
    and tp: "try_place_part s i ps b = (ok, ps', b')"
  shows "board_inv (kerf_width s) ps' b' \<and> (\<forall>j. j \<noteq> i \<longrightarrow> ps' ! j = ps ! j) \<and>
         length ps' = length ps"
proof (cases "first_fit (kerf_width s) (ps ! i) b (allowed_rotations (ps ! i))")
  case None
  with tp have "ps' = ps" "b' = b"
    by (simp_all add: try_place_part_eq [OF i(1)])
  with inv show ?thesis by simp
next
  case (Some t)
  obtain rot px py where t: "t = (rot, px, py)" by (cases t) auto
  let ?ps1 = "ps[i := (ps ! i)\<lparr>rotation := rot\<rparr>]"
  from tp Some t have ap: "add_part i px py (kerf_width s) ?ps1 b = (ps', b')"
    by (simp add: try_place_part_eq [OF i(1)] split: prod.splits)
  have len1: "i < length ?ps1" using i(1) by simp
  have nth1: "?ps1 ! i = (ps ! i)\<lparr>rotation := rot\<rparr>" using i(1) by simp
  have "\<forall>j \<in> set (placed_parts b). ?ps1 ! j = ps ! j"
    using i(2) by (metis nth_list_update_neq)
  from board_inv_cong [OF this] inv have inv1: "board_inv (kerf_width s) ?ps1 b" by simp
  define w where "w = fst (get_rotated_dimensions (ps ! i) rot)"
  define h where "h = snd (get_rotated_dimensions (ps ! i) rot)"
  have "get_rotated_dimensions (?ps1 ! i) (rotation (?ps1 ! i)) = get_rotated_dimensions (ps ! i) rot"
    unfolding nth1 by (simp add: get_rotated_dimensions_def)
  then have dims: "get_rotated_dimensions (?ps1 ! i) (rotation (?ps1 ! i)) = (w, h)"
    by (simp add: w_def h_def)
  from first_fit_position Some t
  have fb: "find_best_position b w h (kerf_width s) = Some (px, py)"
    unfolding w_def h_def by blast
  from place_step [OF inv1 len1 i(2) dims fb ap]
  have "board_inv (kerf_width s) ps' b'" .
  moreover from ap have "ps' = ?ps1[i := (?ps1 ! i)\<lparr>part_x := px, part_y := py, board_id := brd_id b\<rparr>]"
    unfolding add_part_eq by simp
  then have "(\<forall>j. j \<noteq> i \<longrightarrow> ps' ! j = ps ! j) \<and> length ps' = length ps"
    by simp
  ultimately show ?thesis by simp
qed

lemma place_pass_split:
  "place_pass s q ps b nxt = (ps', b', nxt') \<Longrightarrow>
   \<exists>ys zs. nxt' = nxt @ ys \<and> placed_parts b' = placed_parts b @ zs \<and> mset ys + mset zs = mset q"
proof (induction q arbitrary: ps b nxt)
  case Nil
  then show ?case by simp
next
  case (Cons i rest)
  obtain ok ps1 b1 where tp: "try_place_part s i ps b = (ok, ps1, b1)"
    by (cases "try_place_part s i ps b") auto
  show ?case
  proof (cases ok)
    case True
    with Cons.prems tp have "place_pass s rest ps1 b1 nxt = (ps', b', nxt')" by simp
    from Cons.IH [OF this] obtain ys zs where
      "nxt' = nxt @ ys" "placed_parts b' = placed_parts b1 @ zs" "mset ys + mset zs = mset rest"
      by blast
    with try_place_part_placed [OF tp] True
    have "nxt' = nxt @ ys \<and> placed_parts b' = placed_parts b @ (i # zs) \<and>
        mset ys + mset (i # zs) = mset (i # rest)"
      by simp
    then show ?thesis by blast
  next
    case False
    with Cons.prems tp have "place_pass s rest ps1 b1 (nxt @ [i]) = (ps', b', nxt')" by simp
    from Cons.IH [OF this] obtain ys zs where
      "nxt' = (nxt @ [i]) @ ys" "placed_parts b' = placed_parts b1 @ zs" "mset ys + mset zs = mset rest"
      by blast
    with try_place_part_placed [OF tp] False
    have "nxt' = nxt @ (i # ys) \<and> placed_parts b' = placed_parts b @ zs \<and>
        mset (i # ys) + mset zs = mset (i # rest)"
      by simp
    then show ?thesis by blast
  qed
qed

lemma place_pass_inv:
  assumes "board_inv (kerf_width s) ps b"
    and "\<forall>i \<in> set q. i < length ps" "distinct q" "set q \<inter> set (placed_parts b) = {}"
    and "place_pass s q ps b nxt = (ps', b', nxt')"
  shows "board_inv (kerf_width s) ps' b' \<and> (\<forall>j. j \<notin> set q \<longrightarrow> ps' ! j = ps ! j) \<and>
         length ps' = length ps"
  using assms
proof (induction q arbitrary: ps b nxt)
  case Nil
  then show ?case by simp
next
  case (Cons i rest)
  obtain ok ps1 b1 where tp: "try_place_part s i ps b = (ok, ps1, b1)"
    by (cases "try_place_part s i ps b") auto
  from Cons.prems(2) have i: "i < length ps" by simp
  from Cons.prems(4) have ni: "i \<notin> set (placed_parts b)" by simp
  from try_place_part_inv [OF Cons.prems(1) i ni tp]
  have inv1: "board_inv (kerf_width s) ps1 b1" and fr1: "\<forall>j. j \<noteq> i \<longrightarrow> ps1 ! j = ps ! j"
    and len1: "length ps1 = length ps"
    by simp_all
  from Cons.prems(5) tp obtain n where pp: "place_pass s rest ps1 b1 n = (ps', b', nxt')"
    by (cases ok) auto
  have r1: "\<forall>j \<in> set rest. j < length ps1"
    using Cons.prems(2) len1 by simp
  have r2: "distinct rest"
    using Cons.prems(3) by simp
  have "set (placed_parts b1) \<subseteq> insert i (set (placed_parts b))"
    using try_place_part_placed [OF tp] by (cases ok) auto
  with Cons.prems(3,4) have r3: "set rest \<inter> set (placed_parts b1) = {}"
    by auto
  from Cons.IH [OF inv1 r1 r2 r3 pp]
  have "board_inv (kerf_width s) ps' b'" "\<forall>j. j \<notin> set rest \<longrightarrow> ps' ! j = ps1 ! j"
    "length ps' = length ps1"
    by simp_all
  with fr1 len1 show ?case by simp
qed

lemma nest_loop_inv:
  assumes "0 < bw" "0 < bh"
    and "distinct remaining_parts" "\<forall>i \<in> set remaining_parts. i < length ps"
    and "\<forall>b \<in> set boards. board_inv (kerf_width s) ps b \<and>
                            set (placed_parts b) \<inter> set remaining_parts = {}"
  shows "\<forall>b \<in> set (res_boards (nest_loop s material bw bh board_count boards remaining_parts ps)).
           board_inv (kerf_width s)
             (res_parts (nest_loop s material bw bh board_count boards remaining_parts ps)) b"
  using assms(3-)
proof (induction "length remaining_parts" arbitrary: board_count boards remaining_parts ps
    rule: less_induct)
  case less
  note dist = less.prems(1) and rng = less.prems(2) and bs = less.prems(3)
  have keep: "board_inv (kerf_width s) ps' b"
    if "b \<in> set boards" "\<forall>j. j \<notin> set remaining_parts \<longrightarrow> ps' ! j = ps ! j" for ps' b
  proof -
    from bs that(1) have "board_inv (kerf_width s) ps b"
      "set (placed_parts b) \<inter> set remaining_parts = {}" by simp_all
    moreover from this(2) that(2) have "\<forall>i \<in> set (placed_parts b). ps' ! i = ps ! i"
      by auto
    ultimately show ?thesis
      using board_inv_cong [of b ps' ps "kerf_width s"] by simp
  qed
  show ?case
  proof (cases rule: nest_loop_cases [of remaining_parts s material bw bh board_count boards ps])
    case finished
    with bs show ?thesis by simp
  next
    case (unplaceable ps' current_board nxt)
    have "set remaining_parts \<inter> set (placed_parts (Board (board_count + 1) material bw bh)) = {}"
      by (simp add: Board_def)
    from place_pass_inv [OF Board_inv [OF assms(1,2)] rng dist this unplaceable(2)]
    have "\<forall>j. j \<notin> set remaining_parts \<longrightarrow> ps' ! j = ps ! j" by simp
    with keep show ?thesis
      unfolding unplaceable(4) by simp
  next
    case (next_board ps' current_board nxt)
    have e: "set remaining_parts \<inter> set (placed_parts (Board (board_count + 1) material bw bh)) = {}"
      by (simp add: Board_def)
    from place_pass_inv [OF Board_inv [OF assms(1,2)] rng dist e next_board(2)]
    have cur: "board_inv (kerf_width s) ps' current_board"
      and fr: "\<forall>j. j \<notin> set remaining_parts \<longrightarrow> ps' ! j = ps ! j"
      and len: "length ps' = length ps"
      by simp_all
    from place_pass_split [OF next_board(2)] obtain ys zs where
      "nxt = ys" "placed_parts current_board = zs" "mset ys + mset zs = mset remaining_parts"
      by (auto simp: Board_def)
    then have ms: "mset (nxt @ placed_parts current_board) = mset remaining_parts"
      by simp
    from dist have "distinct (nxt @ placed_parts current_board)"
      using mset_eq_imp_distinct_iff [OF ms] by simp
    then have d1: "distinct nxt" and d2: "set (placed_parts current_board) \<inter> set nxt = {}"
      by auto
    from ms have sub: "set nxt \<subseteq> set remaining_parts"
      by (metis mset_eq_setD set_append sup_ge1)
    have p2: "\<forall>i \<in> set nxt. i < length ps'"
      using sub rng len by auto
    have p4: "\<forall>b \<in> set (boards @ [current_board]). board_inv (kerf_width s) ps' b \<and>
                            set (placed_parts b) \<inter> set nxt = {}"
    proof
      fix b assume "b \<in> set (boards @ [current_board])"
      then consider "b \<in> set boards" | "b = current_board" by auto
      then show "board_inv (kerf_width s) ps' b \<and> set (placed_parts b) \<inter> set nxt = {}"
      proof cases
        case 1
        from bs 1 have "set (placed_parts b) \<inter> set remaining_parts = {}" by simp
        with sub have "set (placed_parts b) \<inter> set nxt = {}" by auto
        with keep [OF 1 fr] show ?thesis by simp
      next
        case 2
        with cur d2 show ?thesis by simp
      qed
    qed
    from less.hyps [OF next_board(4) d1 p2 p4]
    show ?thesis
      unfolding next_board(5) .
  qed
qed

lemma nest_parts_inv:
  assumes "0 < bw" "0 < bh"
    and "b \<in> set (res_boards (nest_parts s parts material bw bh))"
  shows "board_inv (kerf_width s) (res_parts (nest_parts s parts material bw bh)) b"
proof -
  let ?ps = "std_sort area_greater parts"
  have "\<forall>b \<in> set (res_boards (nest_loop s material bw bh 0 [] [0..<length ?ps] ?ps)).
           board_inv (kerf_width s)
             (res_parts (nest_loop s material bw bh 0 [] [0..<length ?ps] ?ps)) b"
    by (rule nest_loop_inv [OF assms(1,2)]) simp_all
  with assms(3) show ?thesis
    by (simp add: nest_parts_def Let_def)
qed

section \<open>Rounding to double\<close>

lemma double_exponent_eq:
  assumes "m \<le> n" "e = int m - 1074" "0 < m \<longrightarrow> 2 powi (e + 52) \<le> a" "a < 2 powi (e + 53)"
  shows "double_exponent n a = e"
  using assms(1)
proof (induction n)
  case 0
  with assms(2) show ?case by simp
next
  case (Suc n)
  show ?case
  proof (cases "m = Suc n")
    case True
    with assms(2,3) show ?thesis by simp
  next
    case False
    with Suc.prems have le: "m \<le> n" by simp
    then have "e + 53 \<le> int n - 1021"
      using assms(2) by simp
    then have "(2::real) powi (e + 53) \<le> 2 powi (int n - 1021)"
      by (intro power_int_increasing) simp_all
    with assms(4) have "\<not> 2 powi (int n - 1021) \<le> a" by simp
    with Suc.IH [OF le] show ?thesis by simp
  qed
qed

lemma round_double_eq:
  assumes "- 1074 \<le> e" "e \<le> 971" "2 powi (e + 52) \<le> \<bar>v\<bar>" "\<bar>v\<bar> < 2 powi (e + 53)"
  shows "round_double v = of_int (round_half_even (v / 2 powi e)) * 2 powi e"
proof -
  have "double_exponent 2045 \<bar>v\<bar> = e"
    by (rule double_exponent_eq [where m = "nat (e + 1074)"]) (use assms in auto)
  then show ?thesis
    by (simp add: round_double_def)
qed

lemma round_half_even_of_int [simp]: "round_half_even (of_int n) = n"
  by (simp add: round_half_even_def)

lemma round_double_0 [simp]: "round_double 0 = 0"
  by (simp add: round_double_def round_half_even_def)

lemma round_double_of_int:
  assumes "\<bar>n\<bar> < 2 ^ 53"
  shows "round_double (of_int n) = of_int n"
proof (cases "n = 0")
  case True
  then show ?thesis by simp
next
  case False
  then have "1 \<le> nat \<bar>n\<bar>" by simp
  from ex_power_ivl1 [OF _ this, of 2] obtain k where
    k: "2 ^ k \<le> nat \<bar>n\<bar>" "nat \<bar>n\<bar> < 2 ^ (k + 1)"
    by auto
  have c1: "(2::int) ^ k = int (2 ^ k)" and c2: "(2::int) ^ (k + 1) = int (2 ^ (k + 1))"
    by simp_all
  from k(1) have lo: "(2::int) ^ k \<le> \<bar>n\<bar>"
    unfolding c1 by linarith
  from k(2) have hi: "\<bar>n\<bar> < (2::int) ^ (k + 1)"
    unfolding c2 by linarith
  from lo assms have "(2::int) ^ k < 2 ^ 53" by linarith
  then have "k < 53" by (rule power_less_imp_less_exp [rotated]) simp
  then have k52: "k \<le> 52" by simp
  define e where "e = int k - 52"
  have e: "- 1074 \<le> e" "e \<le> 971"
    using k52 by (simp_all add: e_def)
  have p1: "(2::real) powi (e + 52) = 2 ^ k"
    by (simp add: e_def)
  have p2: "(2::real) powi (e + 53) = 2 ^ (k + 1)"
    by (simp add: e_def power_int_add)
  have a: "\<bar>real_of_int n\<bar> = of_int \<bar>n\<bar>" by simp
  have c3: "(2::real) ^ k = of_int (2 ^ k)" and c4: "(2::real) ^ (k + 1) = of_int (2 ^ (k + 1))"
    by simp_all
  have b1: "2 powi (e + 52) \<le> \<bar>real_of_int n\<bar>"
    unfolding p1 a c3 using lo by (simp only: of_int_le_iff)
  have b2: "\<bar>real_of_int n\<bar> < 2 powi (e + 53)"
    unfolding p2 a c4 using hi by (simp only: of_int_less_iff)
  have "e = - int (52 - k)"
    using k52 by (simp add: e_def)
  then have inv: "(2::real) powi e = inverse (2 ^ (52 - k))"
    by (simp only: power_int_minus power_int_of_nat)
  have "real_of_int n / 2 powi e = of_int (n * 2 ^ (52 - k))"
    by (simp add: inv divide_inverse)
  then have "of_int (round_half_even (real_of_int n / 2 powi e)) * 2 powi e =
      of_int (n * 2 ^ (52 - k)) * (2::real) powi e"
    by (simp only: round_half_even_of_int)
  also have "\<dots> = of_int n"
    by (simp add: inv)
  finally show ?thesis
    unfolding round_double_eq [OF e b1 b2] .
qed

lemma round_double_numeral [simp]:
  "numeral k < (2::int) ^ 53 \<Longrightarrow> round_double (numeral k) = numeral k"
  "numeral k < (2::int) ^ 53 \<Longrightarrow> round_double (- numeral k) = - numeral k"
  using round_double_of_int [of "numeral k"] round_double_of_int [of "- numeral k"] by simp_all

lemma round_double_1 [simp]: "round_double 1 = 1"
  using round_double_of_int [of 1] by simp

lemma round_double_tenth: "round_double (1 / 10) = 3602879701896397 / 36028797018963968"
  by (subst round_double_eq [where e = "- 56"]) (simp_all add: round_half_even_def)

lemma round_double_hundredth: "round_double (1 / 100) = 5764607523034235 / 576460752303423488"
  by (subst round_double_eq [where e = "- 59"]) (simp_all add: round_half_even_def)



section \<open>Subtraction under rounding\<close>

lemma subtract_rect_fl_exact:
  assumes "\<forall>v \<in> set (subtract_rect_sums r c). rnd v = v"
  shows "subtract_rect_fl rnd r c = subtract_rect r c"
proof -
  from assms have e:
    "rnd (rect_x r + rect_width r) = rect_x r + rect_width r"
    "rnd (rect_y r + rect_height r) = rect_y r + rect_height r"
    "rnd (rect_x c + rect_width c) = rect_x c + rect_width c"
    "rnd (rect_y c + rect_height c) = rect_y c + rect_height c"
    "rnd (max (rect_x r) (rect_x c) - rect_x r) = max (rect_x r) (rect_x c) - rect_x r"
    "rnd (rect_x r + rect_width r - min (rect_x r + rect_width r) (rect_x c + rect_width c)) =
       rect_x r + rect_width r - min (rect_x r + rect_width r) (rect_x c + rect_width c)"
    "rnd (min (rect_x r + rect_width r) (rect_x c + rect_width c) - max (rect_x r) (rect_x c)) =
       min (rect_x r + rect_width r) (rect_x c + rect_width c) - max (rect_x r) (rect_x c)"
    "rnd (max (rect_y r) (rect_y c) - rect_y r) = max (rect_y r) (rect_y c) - rect_y r"
    "rnd (rect_y r + rect_height r - min (rect_y r + rect_height r) (rect_y c + rect_height c)) =
       rect_y r + rect_height r - min (rect_y r + rect_height r) (rect_y c + rect_height c)"
    by (simp_all add: subtract_rect_sums_def)
  show ?thesis
    unfolding subtract_rect_fl_def subtract_rect_def right_fl_def bottom_fl_def right_def
      bottom_def Let_def e ..
qed

lemma intersects_fl_exact:
  assumes "\<forall>v \<in> set (subtract_rect_sums r c). rnd v = v"
  shows "intersects_fl rnd r c = intersects r c"
proof -
  from assms have e:
    "rnd (rect_x r + rect_width r) = rect_x r + rect_width r"
    "rnd (rect_y r + rect_height r) = rect_y r + rect_height r"
    "rnd (rect_x c + rect_width c) = rect_x c + rect_width c"
    "rnd (rect_y c + rect_height c) = rect_y c + rect_height c"
    by (simp_all add: subtract_rect_sums_def)
  show ?thesis
    unfolding intersects_fl_def intersects_def right_fl_def bottom_fl_def right_def bottom_def e ..
qed

lemma double_434: "round_double (434 / 10) = 6108006994621235 / 140737488355328"
  by (subst round_double_eq [where e = "- 47"]) (simp_all add: round_half_even_def)

lemma double_87: "round_double (87 / 10) = 2448832297382707 / 281474976710656"
  by (subst round_double_eq [where e = "- 49"]) (simp_all add: round_half_even_def)

lemma double_434_fix:
  "round_double (6108006994621235 / 140737488355328) = 6108006994621235 / 140737488355328"
  by (subst round_double_eq [where e = "- 47"]) (simp_all add: round_half_even_def)

lemma double_87_fix:
  "round_double (2448832297382707 / 281474976710656) = 2448832297382707 / 281474976710656"
  by (subst round_double_eq [where e = "- 49"]) (simp_all add: round_half_even_def)

lemma double_434_minus_87:
  "round_double (9767181691859763 / 281474976710656) = 2441795422964941 / 70368744177664"
  by (subst round_double_eq [where e = "- 47"]) (simp_all add: round_half_even_def)

text \<open>
  Claim C10 fails as stated in double arithmetic: for the rectangles of width 43.4 and 8.7
  (as doubles) at the origin, both of height 10, the one piece returned is the right
  piece, its width is the rounded difference of the widths, and its right edge lies beyond
  that of the original rectangle, also in exact arithmetic on the numbers stored.
\<close>

theorem subtract_rect_area_exact_counterexample:
  "round_double (434 / 10) = 6108006994621235 / 140737488355328 \<and>
   round_double (87 / 10) = 2448832297382707 / 281474976710656 \<and>
   is_valid (Rect 0 0 (6108006994621235 / 140737488355328) 10) \<and>
   is_valid (Rect 0 0 (2448832297382707 / 281474976710656) 10) \<and>
   intersects (Rect 0 0 (6108006994621235 / 140737488355328) 10)
     (Rect 0 0 (2448832297382707 / 281474976710656) 10) \<and>
   intersects_fl round_double (Rect 0 0 (6108006994621235 / 140737488355328) 10)
     (Rect 0 0 (2448832297382707 / 281474976710656) 10) \<and>
   subtract_rect_fl round_double (Rect 0 0 (6108006994621235 / 140737488355328) 10)
     (Rect 0 0 (2448832297382707 / 281474976710656) 10) =
     [Rect (2448832297382707 / 281474976710656) 0 (2441795422964941 / 70368744177664) 10] \<and>
   \<not> inside (Rect (2448832297382707 / 281474976710656) 0 (2441795422964941 / 70368744177664) 10)
       (Rect 0 0 (6108006994621235 / 140737488355328) 10)"
proof -
  have e: "intersects (Rect 0 0 (6108006994621235 / 140737488355328) 10)
     (Rect 0 0 (2448832297382707 / 281474976710656) 10)"
    by (simp add: intersects_def)
  have i: "intersects_fl round_double (Rect 0 0 (6108006994621235 / 140737488355328) 10)
     (Rect 0 0 (2448832297382707 / 281474976710656) 10)"
    by (simp add: intersects_fl_def right_fl_def bottom_fl_def double_434_fix double_87_fix)
  have s: "subtract_rect_fl round_double (Rect 0 0 (6108006994621235 / 140737488355328) 10)
     (Rect 0 0 (2448832297382707 / 281474976710656) 10) =
     [Rect (2448832297382707 / 281474976710656) 0 (2441795422964941 / 70368744177664) 10]"
    by (simp add: subtract_rect_fl_def right_fl_def bottom_fl_def double_434_fix double_87_fix
        double_434_minus_87 Let_def)
  have n: "\<not> inside (Rect (2448832297382707 / 281474976710656) 0 (2441795422964941 / 70368744177664) 10)
       (Rect 0 0 (6108006994621235 / 140737488355328) 10)"
    by (simp add: inside_def)
  have v: "is_valid (Rect 0 0 (6108006994621235 / 140737488355328) 10)"
    "is_valid (Rect 0 0 (2448832297382707 / 281474976710656) 10)"
    by simp_all
  show ?thesis
    by (intro conjI double_434 double_87 v e i s n)
qed

text \<open>
  Claim C10, amended. For valid rectangles \<open>r\<close> and \<open>c\<close> that intersect (by the test of
  the source), when none of the sums and differences that \<open>subtract_rect\<close> computes for
  them is changed by rounding,
  the rectangles returned are pairwise disjoint, each lies inside \<open>r\<close>, and their areas
  add up to the area of \<open>r\<close> minus the area of the intersection box.
\<close>

theorem subtract_rect_fl_area_exact:
  assumes "is_valid r" "is_valid c" "intersects_fl rnd r c"
    and "\<forall>v \<in> set (subtract_rect_sums r c). rnd v = v"
  shows "pairwise_disjoint (subtract_rect_fl rnd r c) \<and>
         (\<forall>p \<in> set (subtract_rect_fl rnd r c). inside p r) \<and>
         sum_list (map area (subtract_rect_fl rnd r c)) =
           area r - (min (right r) (right c) - max (rect_x r) (rect_x c)) *
                    (min (bottom r) (bottom c) - max (rect_y r) (rect_y c))"
proof -
  from assms(3) have i: "intersects r c"
    unfolding intersects_fl_exact [OF assms(4)] .
  show ?thesis
    unfolding subtract_rect_fl_exact [OF assms(4)]
    using subtract_rect_area [OF assms(1,2) i]
    by (simp add: subtract_rect_pairwise_disjoint subtract_rect_inside)
qed

theorem subtract_rect_fl_area_exact_witness:
  "is_valid (Rect 0 0 10 10) \<and> is_valid (Rect 5 5 10 10) \<and>
   intersects_fl round_double (Rect 0 0 10 10) (Rect 5 5 10 10) \<and>
   list_all (\<lambda>v. round_double v = v) (subtract_rect_sums (Rect 0 0 10 10) (Rect 5 5 10 10)) \<and>
   subtract_rect_fl round_double (Rect 0 0 10 10) (Rect 5 5 10 10) =
     [Rect 0 0 5 10, Rect 5 0 5 5] \<and>
   pairwise_disjoint (subtract_rect_fl round_double (Rect 0 0 10 10) (Rect 5 5 10 10)) \<and>
   list_all (\<lambda>p. inside p (Rect 0 0 10 10))
     (subtract_rect_fl round_double (Rect 0 0 10 10) (Rect 5 5 10 10)) \<and>
   sum_list (map area (subtract_rect_fl round_double (Rect 0 0 10 10) (Rect 5 5 10 10))) = 75"
proof -
  have v: "is_valid (Rect 0 0 10 10)" "is_valid (Rect 5 5 10 10)"
    by simp_all
  have i: "intersects_fl round_double (Rect 0 0 10 10) (Rect 5 5 10 10)"
    by (simp add: intersects_fl_def right_fl_def bottom_fl_def)
  have x: "\<forall>v \<in> set (subtract_rect_sums (Rect 0 0 10 10) (Rect 5 5 10 10)). round_double v = v"
    by (simp add: subtract_rect_sums_def)
  have s: "subtract_rect_fl round_double (Rect 0 0 10 10) (Rect 5 5 10 10) =
     [Rect 0 0 5 10, Rect 5 0 5 5]"
    by (simp add: subtract_rect_fl_def right_fl_def bottom_fl_def Let_def)
  from subtract_rect_fl_area_exact [OF v i x] v i x s show ?thesis
    by (simp add: list_all_iff area_def)
qed

section \<open>Rounded and exact arithmetic agree where nothing rounds\<close>

















section \<open>One placement without rounding\<close>

text \<open>
  The same for the operations of a board: the search for a position and the placement
  return what the exact ones return, and the free rectangles stay in \<open>S\<close>.
\<close>

lemma add_part_fl_eq:
  "add_part_fl rnd i px py kerf ps b =
     (ps[i := (ps ! i)\<lparr>part_x := px, part_y := py, board_id := brd_id b\<rparr>],
      b\<lparr>placed_parts := placed_parts b @ [i],
        free_rectangles := std_sort (free_rect_less_fl rnd)
          (concat (map (split_free_fl rnd
             (placed_rect_fl rnd kerf ((ps ! i)\<lparr>part_x := px, part_y := py, board_id := brd_id b\<rparr>)))
             (free_rectangles b)))\<rparr>)"
  by (simp add: add_part_fl_def placed_rect_fl_def Let_def split: prod.splits)








section \<open>The nester without rounding\<close>













section \<open>The rounded operations with no rounding\<close>

text \<open>With the identity for \<open>rnd\<close> the rounded operations are the exact ones.\<close>

lemma intersects_fl_id: "intersects_fl (\<lambda>v. v) = intersects"
  by (intro ext) (simp add: intersects_fl_def intersects_def right_fl_def bottom_fl_def
      right_def bottom_def)

lemma subtract_rect_fl_id: "subtract_rect_fl (\<lambda>v. v) = subtract_rect"
  by (intro ext) (simp add: subtract_rect_fl_def subtract_rect_def right_fl_def bottom_fl_def
      right_def bottom_def Let_def)

lemma split_free_fl_id: "split_free_fl (\<lambda>v. v) = split_free"
  by (intro ext) (simp add: split_free_fl_def split_free_def intersects_fl_id subtract_rect_fl_id)

lemma free_rect_less_fl_id: "free_rect_less_fl (\<lambda>v. v) = free_rect_less"
  by (intro ext) (simp add: free_rect_less_fl_def free_rect_less_def)

lemma placed_rect_fl_id: "placed_rect_fl (\<lambda>v. v) = placed_rect"
  by (intro ext) (simp add: placed_rect_fl_def placed_rect_def)

lemma scan_free_fl_id: "scan_free_fl (\<lambda>v. v) ew eh bw bh fs = scan_free ew eh bw bh fs"
  by (induction fs) simp_all

lemma find_best_position_fl_id:
  "find_best_position_fl (\<lambda>v. v) b pw ph kerf = find_best_position b pw ph kerf"
  by (simp add: find_best_position_fl_def find_best_position_def scan_free_fl_id)

lemma add_part_fl_id: "add_part_fl (\<lambda>v. v) i px py kerf ps b = add_part i px py kerf ps b"
  unfolding add_part_fl_eq add_part_eq split_free_fl_id free_rect_less_fl_id placed_rect_fl_id ..

lemma try_rotations_fl_id:
  "try_rotations_fl (\<lambda>v. v) s i rots ps b = try_rotations s i rots ps b"
  by (induction rots arbitrary: ps)
    (simp_all add: find_best_position_fl_id add_part_fl_id Let_def split: prod.splits option.splits)

lemma try_place_part_fl_id: "try_place_part_fl (\<lambda>v. v) s i ps b = try_place_part s i ps b"
  by (simp add: try_place_part_fl_def try_place_part_def try_rotations_fl_id)

lemma place_pass_fl_id: "place_pass_fl (\<lambda>v. v) s q ps b nxt = place_pass s q ps b nxt"
  by (induction q arbitrary: ps b nxt)
    (simp_all add: try_place_part_fl_id split: prod.splits bool.splits)

lemma nest_loop_fl_id:
  "nest_loop_fl (\<lambda>v. v) s material bw bh board_count boards remaining_parts ps =
   nest_loop s material bw bh board_count boards remaining_parts ps"
proof (induction "length remaining_parts" arbitrary: board_count boards remaining_parts ps
    rule: less_induct)
  case less
  show ?case
  proof (cases rule: nest_loop_cases [of remaining_parts s material bw bh board_count boards ps])
    case finished
    then show ?thesis
      by (simp add: nest_loop_fl.simps)
  next
    case (unplaceable ps' current_board nxt)
    show ?thesis
      unfolding unplaceable(4)
      by (subst nest_loop_fl.simps) (simp add: unplaceable(1,2,3) place_pass_fl_id)
  next
    case (next_board ps' current_board nxt)
    show ?thesis
      unfolding next_board(5)
      by (subst nest_loop_fl.simps)
        (simp add: next_board(1,2,3) place_pass_fl_id less [OF next_board(4)])
  qed
qed

lemma nest_parts_fl_id:
  "nest_parts_fl (\<lambda>v. v) s parts material bw bh = nest_parts s parts material bw bh"
proof -
  have "area_greater_fl (\<lambda>v. v) = area_greater"
    by (intro ext) (simp add: area_greater_fl_def area_greater_def part_area_fl_def part_area_def)
  then show ?thesis
    by (simp add: nest_parts_fl_def nest_parts_def nest_loop_fl_id)
qed

section \<open>A run with two parts and a kerf\<close>


section \<open>A run that rounds\<close>

text \<open>The roundings of the run below, by the exponent of the last place.\<close>

lemma roundings_m43:
  "round_double (21146788856682294876265772000215 / 39614081257132168796771975168) = 4695530377115075 / 8796093022208"
  by (subst round_double_eq [where e = "- 43"]; simp add: round_half_even_def)+

lemma roundings_m44:
  "round_double (21976158806684469 / 70368744177664) = 5494039701671117 / 17592186044416"
  "round_double (6496511255763389981012748444631 / 19807040628566084398385987584) = 1442515275177001 / 4398046511104"
  "round_double (92886742314516475 / 281474976710656) = 330"
  by (subst round_double_eq [where e = "- 44"]; simp add: round_half_even_def)+

lemma roundings_m47:
  "round_double (- (24432027978484941 / 562949953421312)) = - (6108006994621235 / 140737488355328)"
  "round_double (- (11624916538150093 / 281474976710656)) = - (2906229134537523 / 70368744177664)"
  "round_double (- (10611606621991731 / 281474976710656)) = - (2652901655497933 / 70368744177664)"
  "round_double (9767181691859763 / 281474976710656) = 2441795422964941 / 70368744177664"
  "round_double (347 / 10) = 2441795422964941 / 70368744177664"
  "round_double (2441795422964941 / 70368744177664) = 2441795422964941 / 70368744177664"
  "round_double (9767181691859765 / 281474976710656) = 2441795422964941 / 70368744177664"
  "round_double (10611606621991731 / 281474976710656) = 2652901655497933 / 70368744177664"
  "round_double (377 / 10) = 2652901655497933 / 70368744177664"
  "round_double (2652901655497933 / 70368744177664) = 2652901655497933 / 70368744177664"
  "round_double (6108006994621235 / 140737488355328) = 6108006994621235 / 140737488355328"
  "round_double (217 / 5) = 6108006994621235 / 140737488355328"
  "round_double (12216013989242471 / 281474976710656) = 1527001748655309 / 35184372088832"
  "round_double (28147497671065599 / 562949953421312) = 50"
  "round_double (14073748835532801 / 281474976710656) = 50"
  by (subst round_double_eq [where e = "- 47"]; simp add: round_half_even_def)+

lemma roundings_m48:
  "round_double (5995417003936973 / 281474976710656) = 5995417003936973 / 281474976710656"
  "round_double (8078331831595827 / 281474976710656) = 8078331831595827 / 281474976710656"
  by (subst round_double_eq [where e = "- 48"]; simp add: round_half_even_def)+

lemma roundings_m49:
  "round_double (- (1076641785918259 / 70368744177664)) = - (1076641785918259 / 70368744177664)"
  "round_double (- (865535553385267 / 70368744177664)) = - (865535553385267 / 70368744177664)"
  "round_double (2448832297382707 / 281474976710656) = 2448832297382707 / 281474976710656"
  "round_double (87 / 10) = 2448832297382707 / 281474976710656"
  "round_double (123 / 10) = 3462142213541069 / 281474976710656"
  "round_double (3462142213541069 / 281474976710656) = 3462142213541069 / 281474976710656"
  by (subst round_double_eq [where e = "- 49"]; simp add: round_half_even_def)+

lemma roundings_m50:
  "round_double (- (928867423145165 / 140737488355328)) = - (928867423145165 / 140737488355328)"
  "round_double (3715469692580659 / 562949953421312) = 3715469692580659 / 562949953421312"
  "round_double (33 / 5) = 3715469692580659 / 562949953421312"
  "round_double (928867423145165 / 140737488355328) = 928867423145165 / 140737488355328"
  by (subst round_double_eq [where e = "- 50"]; simp add: round_half_even_def)+

lemma try_place_part_fl_single:
  assumes "i < length ps" "allowed_rotations (ps ! i) = [rot]"
    and "get_rotated_dimensions (ps ! i) rot = (w, h)"
    and "kerf_width s = kerf"
    and "find_best_position_fl rnd b w h kerf = Some (px, py)"
  shows "try_place_part_fl rnd s i ps b =
     (case add_part_fl rnd i px py kerf (ps[i := (ps ! i)\<lparr>rotation := rot\<rparr>]) b of
        (ps2, b2) \<Rightarrow> (True, ps2, b2))"
proof -
  let ?ps1 = "ps[i := (ps ! i)\<lparr>rotation := rot\<rparr>]"
  have nth: "?ps1 ! i = (ps ! i)\<lparr>rotation := rot\<rparr>" using assms(1) by simp
  have "get_rotated_dimensions (?ps1 ! i) rot = get_rotated_dimensions (ps ! i) rot"
    unfolding nth by (rule get_rotated_dimensions_cong) simp_all
  with assms(3) have d: "get_rotated_dimensions (?ps1 ! i) rot = (w, h)" by simp
  show ?thesis
    unfolding try_place_part_fl_def Let_def assms(2)
    by (simp add: d assms(4,5) Let_def split: prod.splits)
qed

lemma rounding_overlap_run:
  "nest_loop_fl round_double (settings_kerf 0) ''oak'' 50 50 0 []
     [0, Suc 0, 2, 3]
     [new_part ''A'' ''oak'' (6108006994621235 / 140737488355328)
        (3462142213541069 / 281474976710656) [0],
      new_part ''B'' ''oak'' (3715469692580659 / 562949953421312) 50 [0],
      new_part ''C'' ''oak'' (2448832297382707 / 281474976710656)
        (2652901655497933 / 70368744177664) [0],
      new_part ''D'' ''oak'' (2441795422964941 / 70368744177664) 9 [0]] =
   \<lparr>res_boards =
      [\<lparr>brd_id = 1, brd_material = ''oak'', brd_width = 50, brd_height = 50,
        free_rectangles =
          [Rect (2448832297382707 / 281474976710656) (5995417003936973 / 281474976710656)
             (2441795422964941 / 70368744177664) (8078331831595827 / 281474976710656)],
        placed_parts = [0, Suc 0, 2, 3]\<rparr>],
    res_parts =
      [(new_part ''A'' ''oak'' (6108006994621235 / 140737488355328)
          (3462142213541069 / 281474976710656) [0])\<lparr>board_id := 1\<rparr>,
       (new_part ''B'' ''oak'' (3715469692580659 / 562949953421312) 50 [0])
          \<lparr>part_x := 6108006994621235 / 140737488355328, board_id := 1\<rparr>,
       (new_part ''C'' ''oak'' (2448832297382707 / 281474976710656)
          (2652901655497933 / 70368744177664) [0])
          \<lparr>part_y := 3462142213541069 / 281474976710656, board_id := 1\<rparr>,
       (new_part ''D'' ''oak'' (2441795422964941 / 70368744177664) 9 [0])
          \<lparr>part_x := 2448832297382707 / 281474976710656,
           part_y := 3462142213541069 / 281474976710656, board_id := 1\<rparr>],
    res_board_count = 1, res_error = None\<rparr>"
proof -
  let ?s = "settings_kerf 0"
  let ?A = "new_part ''A'' ''oak'' (6108006994621235 / 140737488355328)
        (3462142213541069 / 281474976710656) [0]"
  let ?B = "new_part ''B'' ''oak'' (3715469692580659 / 562949953421312) 50 [0]"
  let ?C = "new_part ''C'' ''oak'' (2448832297382707 / 281474976710656)
        (2652901655497933 / 70368744177664) [0]"
  let ?D = "new_part ''D'' ''oak'' (2441795422964941 / 70368744177664) 9 [0]"
  let ?qA = "?A\<lparr>board_id := 1\<rparr>"
  let ?qB = "?B\<lparr>part_x := 6108006994621235 / 140737488355328, board_id := 1\<rparr>"
  let ?qC = "?C\<lparr>part_y := 3462142213541069 / 281474976710656, board_id := 1\<rparr>"
  let ?qD = "?D\<lparr>part_x := 2448832297382707 / 281474976710656,
           part_y := 3462142213541069 / 281474976710656, board_id := 1\<rparr>"
  let ?b0 = "Board 1 ''oak'' 50 50"
  let ?b1 = "\<lparr>brd_id = 1, brd_material = ''oak'', brd_width = 50, brd_height = 50,
        free_rectangles =
          [Rect (6108006994621235 / 140737488355328) 0 (928867423145165 / 140737488355328) 50,
           Rect 0 (3462142213541069 / 281474976710656) (6108006994621235 / 140737488355328)
             (2652901655497933 / 70368744177664)],
        placed_parts = [0]\<rparr>"
  let ?b2 = "\<lparr>brd_id = 1, brd_material = ''oak'', brd_width = 50, brd_height = 50,
        free_rectangles =
          [Rect 0 (3462142213541069 / 281474976710656) (6108006994621235 / 140737488355328)
             (2652901655497933 / 70368744177664)],
        placed_parts = [0, Suc 0]\<rparr>"
  let ?b3 = "\<lparr>brd_id = 1, brd_material = ''oak'', brd_width = 50, brd_height = 50,
        free_rectangles =
          [Rect (2448832297382707 / 281474976710656) (3462142213541069 / 281474976710656)
             (2441795422964941 / 70368744177664) (2652901655497933 / 70368744177664)],
        placed_parts = [0, Suc 0, 2]\<rparr>"
  let ?b4 = "\<lparr>brd_id = 1, brd_material = ''oak'', brd_width = 50, brd_height = 50,
        free_rectangles =
          [Rect (2448832297382707 / 281474976710656) (5995417003936973 / 281474976710656)
             (2441795422964941 / 70368744177664) (8078331831595827 / 281474976710656)],
        placed_parts = [0, Suc 0, 2, 3]\<rparr>"
  note rd = roundings_m43 roundings_m44 roundings_m47 roundings_m48 roundings_m49 roundings_m50
    round_double_tenth round_double_hundredth
  note defs = add_part_fl_def new_part_def get_rotated_dimensions_def split_free_fl_def
    intersects_fl_def right_fl_def bottom_fl_def subtract_rect_fl_def free_rect_less_fl_def Let_def
  have k: "kerf_width ?s = 0"
    by simp
  have r: "allowed_rotations ?A = [0]" "allowed_rotations ?B = [0]" "allowed_rotations ?C = [0]"
    "allowed_rotations ?D = [0]"
    by (simp_all add: new_part_def)
  have g: "get_rotated_dimensions ?A 0 = (6108006994621235 / 140737488355328,
        3462142213541069 / 281474976710656)"
    "get_rotated_dimensions ?B 0 = (3715469692580659 / 562949953421312, 50)"
    "get_rotated_dimensions ?C 0 = (2448832297382707 / 281474976710656,
        2652901655497933 / 70368744177664)"
    "get_rotated_dimensions ?D 0 = (2441795422964941 / 70368744177664, 9)"
    by (simp_all add: new_part_def get_rotated_dimensions_def)
  have f1: "find_best_position_fl round_double ?b0 (6108006994621235 / 140737488355328)
      (3462142213541069 / 281474976710656) 0 = Some (0, 0)"
    by (simp add: find_best_position_fl_def Board_def rd)
  have a1: "add_part_fl round_double 0 0 0 0 [?A\<lparr>rotation := 0\<rparr>, ?B, ?C, ?D] ?b0 =
      ([?qA, ?B, ?C, ?D], ?b1)"
    by (simp add: defs Board_def rd)
  have t1: "try_place_part_fl round_double ?s 0 [?A, ?B, ?C, ?D] ?b0 = (True, [?qA, ?B, ?C, ?D], ?b1)"
    by (subst try_place_part_fl_single [where rot = 0, OF _ _ _ k f1]) (simp_all add: r g a1)
  have f2: "find_best_position_fl round_double ?b1 (3715469692580659 / 562949953421312) 50
      0 = Some (6108006994621235 / 140737488355328, 0)"
    by (simp add: find_best_position_fl_def rd)
  have a2: "add_part_fl round_double (Suc 0) (6108006994621235 / 140737488355328) 0 0
      [?qA, ?B\<lparr>rotation := 0\<rparr>, ?C, ?D] ?b1 = ([?qA, ?qB, ?C, ?D], ?b2)"
    by (simp add: defs rd numeral_2_eq_2 numeral_3_eq_3)
  have t2: "try_place_part_fl round_double ?s (Suc 0) [?qA, ?B, ?C, ?D] ?b1 =
      (True, [?qA, ?qB, ?C, ?D], ?b2)"
    by (subst try_place_part_fl_single [where rot = 0, OF _ _ _ k f2]) (simp_all add: r g a2)
  have f3: "find_best_position_fl round_double ?b2 (2448832297382707 / 281474976710656)
      (2652901655497933 / 70368744177664) 0 =
      Some (0, 3462142213541069 / 281474976710656)"
    by (simp add: find_best_position_fl_def rd)
  have a3: "add_part_fl round_double (2) 0 (3462142213541069 / 281474976710656)
      0 [?qA, ?qB, ?C\<lparr>rotation := 0\<rparr>, ?D] ?b2 = ([?qA, ?qB, ?qC, ?D], ?b3)"
    by (simp add: defs rd numeral_2_eq_2 numeral_3_eq_3)
  have t3: "try_place_part_fl round_double ?s (2) [?qA, ?qB, ?C, ?D] ?b2 =
      (True, [?qA, ?qB, ?qC, ?D], ?b3)"
    by (subst try_place_part_fl_single [where rot = 0, OF _ _ _ k f3]) (simp_all add: r g a3)
  have f4: "find_best_position_fl round_double ?b3 (2441795422964941 / 70368744177664) 9
      0 =
      Some (2448832297382707 / 281474976710656, 3462142213541069 / 281474976710656)"
    by (simp add: find_best_position_fl_def rd)
  have a4: "add_part_fl round_double (3) (2448832297382707 / 281474976710656)
      (3462142213541069 / 281474976710656) 0
      [?qA, ?qB, ?qC, ?D\<lparr>rotation := 0\<rparr>] ?b3 = ([?qA, ?qB, ?qC, ?qD], ?b4)"
    by (simp add: defs rd numeral_2_eq_2 numeral_3_eq_3)
  have t4: "try_place_part_fl round_double ?s (3) [?qA, ?qB, ?qC, ?D] ?b3 =
      (True, [?qA, ?qB, ?qC, ?qD], ?b4)"
    by (subst try_place_part_fl_single [where rot = 0, OF _ _ _ k f4]) (simp_all add: r g a4)
  have pass: "place_pass_fl round_double ?s [0, Suc 0, 2, 3]
      [?A, ?B, ?C, ?D] ?b0 [] = ([?qA, ?qB, ?qC, ?qD], ?b4, [])"
    by (simp add: t1 t2 t3 t4)
  have "nest_loop_fl round_double ?s ''oak'' 50 50 0 [] [0, Suc 0, 2, 3]
      [?A, ?B, ?C, ?D] =
      nest_loop_fl round_double ?s ''oak'' 50 50 1 [?b4] [] [?qA, ?qB, ?qC, ?qD]"
    by (subst nest_loop_fl.simps) (simp add: pass del: place_pass_fl.simps)
  also have "\<dots> = \<lparr>res_boards = [?b4], res_parts = [?qA, ?qB, ?qC, ?qD], res_board_count = 1,
      res_error = None\<rparr>"
    by (subst nest_loop_fl.simps) simp
  finally show ?thesis .
qed

text \<open>
  Rounding can make placed parts overlap. On a board of 50 by 50 with kerf 0, take four
  parts whose sizes are the doubles nearest to 43.4 by 12.3, 6.6 by 50, 8.7 by 37.7 and
  34.7 by 9. All four are placed on one board: the second at \<open>x = 43.4\<close>, the third at
  \<open>(0, 12.3)\<close> and the fourth beside it at \<open>(8.7, 12.3)\<close>, in the free rectangle whose
  width is the rounded difference of 43.4 and 8.7. That width is the double nearest to
  34.7, and 8.7 plus it exceeds 43.4: the fourth part's rectangle intersects the second's,
  by the exact rule and by the rounded test of the source alike.
\<close>

lemma nest_parts_fl_rounding_overlap:
  "map placed_parts (res_boards (nest_parts_fl round_double (settings_kerf 0)
      [new_part ''A'' ''oak'' (round_double (434 / 10)) (round_double (123 / 10)) [0],
       new_part ''B'' ''oak'' (round_double (66 / 10)) 50 [0],
       new_part ''C'' ''oak'' (round_double (87 / 10)) (round_double (377 / 10)) [0],
       new_part ''D'' ''oak'' (round_double (347 / 10)) 9 [0]] ''oak'' 50 50)) = [[0, 1, 2, 3]] \<and>
   map (placed_rect_fl round_double (kerf_width (settings_kerf 0)))
     (res_parts (nest_parts_fl round_double (settings_kerf 0)
      [new_part ''A'' ''oak'' (round_double (434 / 10)) (round_double (123 / 10)) [0],
       new_part ''B'' ''oak'' (round_double (66 / 10)) 50 [0],
       new_part ''C'' ''oak'' (round_double (87 / 10)) (round_double (377 / 10)) [0],
       new_part ''D'' ''oak'' (round_double (347 / 10)) 9 [0]] ''oak'' 50 50)) =
     [Rect 0 0 (round_double (434 / 10)) (round_double (123 / 10)),
      Rect (round_double (434 / 10)) 0 (round_double (66 / 10)) 50,
      Rect 0 (round_double (123 / 10)) (round_double (87 / 10)) (round_double (377 / 10)),
      Rect (round_double (87 / 10)) (round_double (123 / 10)) (round_double (347 / 10)) 9] \<and>
   round_double (434 / 10) < round_double (87 / 10) + round_double (347 / 10) \<and>
   intersects (Rect (round_double (434 / 10)) 0 (round_double (66 / 10)) 50)
     (Rect (round_double (87 / 10)) (round_double (123 / 10)) (round_double (347 / 10)) 9) \<and>
   intersects_fl round_double (Rect (round_double (434 / 10)) 0 (round_double (66 / 10)) 50)
     (Rect (round_double (87 / 10)) (round_double (123 / 10)) (round_double (347 / 10)) 9)"
proof -
  let ?s = "settings_kerf 0"
  let ?A = "new_part ''A'' ''oak'' (6108006994621235 / 140737488355328)
        (3462142213541069 / 281474976710656) [0]"
  let ?B = "new_part ''B'' ''oak'' (3715469692580659 / 562949953421312) 50 [0]"
  let ?C = "new_part ''C'' ''oak'' (2448832297382707 / 281474976710656)
        (2652901655497933 / 70368744177664) [0]"
  let ?D = "new_part ''D'' ''oak'' (2441795422964941 / 70368744177664) 9 [0]"
  note rd = roundings_m43 roundings_m44 roundings_m47 roundings_m48 roundings_m49 roundings_m50
  have parts: "[new_part ''A'' ''oak'' (round_double (434 / 10)) (round_double (123 / 10)) [0],
       new_part ''B'' ''oak'' (round_double (66 / 10)) 50 [0],
       new_part ''C'' ''oak'' (round_double (87 / 10)) (round_double (377 / 10)) [0],
       new_part ''D'' ''oak'' (round_double (347 / 10)) 9 [0]] = [?A, ?B, ?C, ?D]"
    by (simp add: rd)
  have sorted: "std_sort (area_greater_fl round_double) [?A, ?B, ?C, ?D] = [?A, ?B, ?C, ?D]"
    by (simp add: area_greater_fl_def part_area_fl_def new_part_def rd)
  have upt: "[0..<length [?A, ?B, ?C, ?D]] = [0, Suc 0, 2, 3]"
    by (simp add: upt_rec)
  have run: "nest_parts_fl round_double ?s [?A, ?B, ?C, ?D] ''oak'' 50 50 =
     nest_loop_fl round_double ?s ''oak'' 50 50 0 [] [0, Suc 0, 2, 3] [?A, ?B, ?C, ?D]"
    unfolding nest_parts_fl_def Let_def sorted upt ..
  have v: "round_double (434 / 10) = 6108006994621235 / 140737488355328"
    "round_double (123 / 10) = 3462142213541069 / 281474976710656"
    "round_double (66 / 10) = 3715469692580659 / 562949953421312"
    "round_double (87 / 10) = 2448832297382707 / 281474976710656"
    "round_double (377 / 10) = 2652901655497933 / 70368744177664"
    "round_double (347 / 10) = 2441795422964941 / 70368744177664"
    by (simp_all add: rd)
  show ?thesis
    unfolding parts run rounding_overlap_run v
    by (simp add: placed_rect_fl_def new_part_def get_rotated_dimensions_def intersects_def
        intersects_fl_def right_fl_def bottom_fl_def rd)
qed

section \<open>Claim about the layout of the returned boards\<close>





end
